theory Spec2Isabelle
  imports Main
begin

section \<open>Text and character classes\<close>

text \<open>
  The scanner of \<^verbatim>\<open>src/app/app.py\<close> works on Python \<^verbatim>\<open>str\<close> values with the
  \<^verbatim>\<open>re\<close> module. A text is modelled as a list of 8-bit code points (\<open>string\<close>), one
  \<open>char\<close> per Python character, so offsets and lengths count characters as Python
  does. Code points above 255 are outside the model.

  The character classes below are those of Python 3 on the code points 0..255:
  \<^verbatim>\<open>\s\<close> and \<^verbatim>\<open>str.strip()\<close> use \<^verbatim>\<open>str.isspace\<close>, \<^verbatim>\<open>\w\<close> is alphanumeric or
  underscore, and under \<^verbatim>\<open>re.IGNORECASE\<close> an ASCII letter of a pattern matches
  exactly its two ASCII case forms.
\<close>

definition ord :: "char \<Rightarrow> nat" where
  "ord c = of_char c"

definition is_space :: "char \<Rightarrow> bool" where
  "is_space c = (let n = ord c in
     (9 \<le> n \<and> n \<le> 13) \<or> (28 \<le> n \<and> n \<le> 32) \<or> n = 133 \<or> n = 160)"

text \<open>The class \<^verbatim>\<open>[A-Z0-9_]\<close> under \<^verbatim>\<open>re.IGNORECASE\<close>.\<close>

definition is_ident :: "char \<Rightarrow> bool" where
  "is_ident c = (let n = ord c in
     (48 \<le> n \<and> n \<le> 57) \<or> (65 \<le> n \<and> n \<le> 90) \<or> n = 95 \<or> (97 \<le> n \<and> n \<le> 122))"

text \<open>The class \<^verbatim>\<open>\w\<close>: the ASCII word characters and the Latin-1 letters and numerics.\<close>

definition is_word :: "char \<Rightarrow> bool" where
  "is_word c = (let n = ord c in
     is_ident c \<or> n = 170 \<or> n = 178 \<or> n = 179 \<or> n = 181 \<or> n = 185 \<or> n = 186 \<or>
     (188 \<le> n \<and> n \<le> 190) \<or> (192 \<le> n \<and> n \<le> 214) \<or> (216 \<le> n \<and> n \<le> 246) \<or>
     (248 \<le> n \<and> n \<le> 255))"

definition ascii_upper :: "char \<Rightarrow> char" where
  "ascii_upper c = (let n = ord c in if 97 \<le> n \<and> n \<le> 122 then char_of (n - 32) else c)"

text \<open>
  \<^verbatim>\<open>str.upper()\<close>, character by character. The sharp s (223) becomes \<^verbatim>\<open>SS\<close>; the
  letters 224..254 except the division sign 247 move down by 32. The upper-case forms
  of 181 and 255 are the code points 924 and 376, which have no 8-bit form: both
  characters are kept. No registry name contains a character above 127, so the
  membership tests of the scanner, the only readers of an upper-cased token, do not
  see the difference.
\<close>

definition upper_chr :: "char \<Rightarrow> string" where
  "upper_chr c = (let n = ord c in
     if 97 \<le> n \<and> n \<le> 122 then [char_of (n - 32)]
     else if n = 223 then ''SS''
     else if 224 \<le> n \<and> n \<le> 254 \<and> n \<noteq> 247 then [char_of (n - 32)]
     else [c])"

definition upper :: "string \<Rightarrow> string" where
  "upper s = concat (map upper_chr s)"

text \<open>\<^verbatim>\<open>s[a:b]\<close> for \<open>a \<le> b\<close>.\<close>

definition slice :: "string \<Rightarrow> nat \<Rightarrow> nat \<Rightarrow> string" where
  "slice s a b = take (b - a) (drop a s)"

text \<open>\<^verbatim>\<open>str.strip()\<close> and \<^verbatim>\<open>str.replace(".", "")\<close>.\<close>

definition strip :: "string \<Rightarrow> string" where
  "strip s = rev (dropWhile is_space (rev (dropWhile is_space s)))"

definition remove_dots :: "string \<Rightarrow> string" where
  "remove_dots s = filter (\<lambda>c. c \<noteq> CHR ''.'') s"

section \<open>Regular-expression primitives\<close>

text \<open>\<^verbatim>\<open>\b\<close> at offset \<open>i\<close>: exactly one of the two neighbours is a word character.\<close>

definition bnd :: "string \<Rightarrow> nat \<Rightarrow> bool" where
  "bnd s i = ((0 < i \<and> i \<le> length s \<and> is_word (s ! (i - 1))) \<noteq> (i < length s \<and> is_word (s ! i)))"

text \<open>A literal of upper-case ASCII letters (or a hyphen) at offset \<open>i\<close>, ignoring case.\<close>

definition lit :: "string \<Rightarrow> nat \<Rightarrow> string \<Rightarrow> bool" where
  "lit s i p = (map ascii_upper (slice s i (i + length p)) = p)"

text \<open>\<^verbatim>\<open>\bWORD\b\<close> at offset \<open>i\<close>.\<close>

definition kw :: "string \<Rightarrow> nat \<Rightarrow> string \<Rightarrow> bool" where
  "kw s i p = (bnd s i \<and> lit s i p \<and> bnd s (i + length p))"

text \<open>
  \<^verbatim>\<open>$\<close> without \<^verbatim>\<open>re.MULTILINE\<close>: the end of the text, or just before a newline that
  is the last character.
\<close>

definition at_end :: "string \<Rightarrow> nat \<Rightarrow> bool" where
  "at_end s e = (e = length s \<or> (Suc e = length s \<and> s ! e = CHR 0x0A))"

text \<open>The offset where the run of \<open>P\<close>-characters starting at \<open>i\<close> stops.\<close>

definition run_end :: "(char \<Rightarrow> bool) \<Rightarrow> string \<Rightarrow> nat \<Rightarrow> nat" where
  "run_end P s i = i + length (takeWhile P (drop i s))"

text \<open>
  A lazy repetition followed by the rest of the pattern \<open>k\<close>: the end offsets
  \<open>i, i + 1, \<dots>, i + d\<close> are tried in this order and the first success wins.
\<close>

fun lazy :: "(nat \<Rightarrow> 'a option) \<Rightarrow> nat \<Rightarrow> nat \<Rightarrow> 'a option" where
  "lazy k i 0 = k i"
| "lazy k i (Suc d) = (case k i of Some r \<Rightarrow> Some r | None \<Rightarrow> lazy k (Suc i) d)"

text \<open>
  A greedy repetition followed by \<open>k\<close>: the end offsets \<open>lo + d, \<dots>, lo + 1, lo\<close> are
  tried in this order (backtracking gives characters back one at a time).
\<close>

fun greedy :: "(nat \<Rightarrow> 'a option) \<Rightarrow> nat \<Rightarrow> nat \<Rightarrow> 'a option" where
  "greedy k lo 0 = k lo"
| "greedy k lo (Suc d) = (case k (lo + Suc d) of Some r \<Rightarrow> Some r | None \<Rightarrow> greedy k lo d)"

text \<open>\<^verbatim>\<open>[class]+\<close> at offset \<open>b\<close>, greedy: at least one character of the run is taken.\<close>

definition rep1 :: "(char \<Rightarrow> bool) \<Rightarrow> string \<Rightarrow> nat \<Rightarrow> (nat \<Rightarrow> 'a option) \<Rightarrow> 'a option" where
  "rep1 P s b k = (let e = run_end P s b in if e = b then None else greedy k (Suc b) (e - Suc b))"

text \<open>
  \<^verbatim>\<open>pattern.finditer(text)\<close>: the matches from left to right, each search starting
  where the previous match ended. \<open>re pos\<close> is the match of the pattern anchored at
  \<open>pos\<close>, \<open>n\<close> the length of the text. A search always moves on by at least one
  character; the four patterns of the program match no empty string.
\<close>

function finditer :: "(nat \<Rightarrow> 'm option) \<Rightarrow> ('m \<Rightarrow> nat) \<Rightarrow> nat \<Rightarrow> nat \<Rightarrow> 'm list" where
  "finditer re end_of n pos =
     (if n < pos then []
      else case re pos of
             None \<Rightarrow> finditer re end_of n (Suc pos)
           | Some m \<Rightarrow> m # finditer re end_of n (max (Suc pos) (end_of m)))"
  by pat_completeness auto
termination
  by (relation "measure (\<lambda>(re, end_of, n, pos). Suc n - pos)") auto

declare finditer.simps [simp del]

text \<open>
  \<^verbatim>\<open>re.split(r"[,\s]+", text)\<close>: the pieces between the maximal runs of commas and
  white space; a run at either end leaves an empty piece there.
\<close>

definition is_sep :: "char \<Rightarrow> bool" where
  "is_sep c = (c = CHR '','' \<or> is_space c)"

function re_split :: "string \<Rightarrow> string list" where
  "re_split s =
     (let r = dropWhile (\<lambda>c. \<not> is_sep c) s
      in if r = [] then [s]
         else takeWhile (\<lambda>c. \<not> is_sep c) s # re_split (dropWhile is_sep r))"
  by pat_completeness auto
termination
proof (relation "measure length")
  fix s r
  assume r: "r = dropWhile (\<lambda>c. \<not> is_sep c) s" and ne: "r \<noteq> []"
  from ne obtain c cs where rc: "r = c # cs" by (cases r) auto
  with r have "is_sep c" by (metis dropWhile_eq_Cons_conv)
  then have "length (dropWhile is_sep r) \<le> length cs"
    using rc by (simp add: length_dropWhile_le)
  moreover have "length r \<le> length s" using r by (simp add: length_dropWhile_le)
  ultimately show "(dropWhile is_sep r, s) \<in> measure length" using rc by simp
qed simp

declare re_split.simps [simp del]

section \<open>The registry\<close>

definition OBSOLETE_FIELDS :: "string \<rightharpoonup> string list" where
  "OBSOLETE_FIELDS = map_of
     [(''MARC'', [''MEGRU'', ''USEQU'', ''ALTSL'', ''MDACH'', ''DPLFS'', ''DPLPU'', ''DPLHO'', ''FHORI'']),
      (''MARD'', [''DISKZ'', ''LSOBS'', ''LMINB'', ''LBSTF''])]"

definition OBSOLETE_FIELDNAMES :: "string set" where
  "OBSOLETE_FIELDNAMES = set
     [''MEGRU'', ''USEQU'', ''ALTSL'', ''MDACH'', ''DPLFS'', ''DPLPU'', ''DPLHO'', ''FHORI'',
      ''DISKZ'', ''LSOBS'', ''LMINB'', ''LBSTF'']"

section \<open>The four patterns\<close>

record sql_match =
  m_span :: "nat \<times> nat"
  select_part :: string
  m_table :: string
  rest_part :: string

record field_match =
  f_span :: "nat \<times> nat"
  f_table :: string
  f_field :: string

text \<open>
  \<^verbatim>\<open>\bSELECT\b(?P<select_part>.*?)\bFROM\b\s+(?P<table>MARC|MARD)\b(?P<rest>.*?)(?=\bSELECT\b|$)\<close>
  with \<^verbatim>\<open>IGNORECASE | DOTALL\<close>, anchored at offset \<open>i\<close>.
\<close>

definition SQL_STMT_RE :: "string \<Rightarrow> nat \<Rightarrow> sql_match option" where
  "SQL_STMT_RE s i =
     (if kw s i ''SELECT'' then
        lazy (\<lambda>j.
          if kw s j ''FROM'' then
            rep1 is_space s (j + 4) (\<lambda>k.
              if (lit s k ''MARC'' \<or> lit s k ''MARD'') \<and> bnd s (k + 4) then
                lazy (\<lambda>e.
                  if kw s e ''SELECT'' \<or> at_end s e then
                    Some \<lparr>m_span = (i, e), select_part = slice s (i + 6) j,
                          m_table = slice s k (k + 4), rest_part = slice s (k + 4) e\<rparr>
                  else None) (k + 4) (length s - (k + 4))
              else None)
          else None) (i + 6) (length s - (i + 6))
      else None)"

text \<open>\<^verbatim>\<open>\b(?P<table>MARC|MARD)-(?P<field>[A-Z0-9_]+)\b\<close> with \<^verbatim>\<open>IGNORECASE\<close>.\<close>

definition QUALIFIED_FIELD_RE :: "string \<Rightarrow> nat \<Rightarrow> field_match option" where
  "QUALIFIED_FIELD_RE s i =
     (if bnd s i \<and> (lit s i ''MARC'' \<or> lit s i ''MARD'') \<and> lit s (i + 4) ''-'' then
        rep1 is_ident s (i + 5) (\<lambda>e.
          if bnd s e then
            Some \<lparr>f_span = (i, e), f_table = slice s i (i + 4), f_field = slice s (i + 5) e\<rparr>
          else None)
      else None)"

text \<open>\<^verbatim>\<open>\b(TYPE|LIKE)\b\s+(?P<table>MARC|MARD)-(?P<field>[A-Z0-9_]+)\<close> with \<^verbatim>\<open>IGNORECASE\<close>.\<close>

definition DECLARATION_QUAL_RE :: "string \<Rightarrow> nat \<Rightarrow> field_match option" where
  "DECLARATION_QUAL_RE s i =
     (if bnd s i \<and> (lit s i ''TYPE'' \<or> lit s i ''LIKE'') \<and> bnd s (i + 4) then
        rep1 is_space s (i + 4) (\<lambda>k.
          if (lit s k ''MARC'' \<or> lit s k ''MARD'') \<and> lit s (k + 4) ''-'' then
            rep1 is_ident s (k + 5) (\<lambda>e.
              Some \<lparr>f_span = (i, e), f_table = slice s k (k + 4), f_field = slice s (k + 5) e\<rparr>)
          else None)
      else None)"

text \<open>
  \<^verbatim>\<open>\b(TYPE|LIKE)\b\s+(?P<fieldname>[A-Z0-9_]+)\b\<close> with \<^verbatim>\<open>IGNORECASE\<close>. The pattern
  has no table group: \<open>f_table\<close> is left empty and never read.
\<close>

definition DECLARATION_DE_RE :: "string \<Rightarrow> nat \<Rightarrow> field_match option" where
  "DECLARATION_DE_RE s i =
     (if bnd s i \<and> (lit s i ''TYPE'' \<or> lit s i ''LIKE'') \<and> bnd s (i + 4) then
        rep1 is_space s (i + 4) (\<lambda>k.
          rep1 is_ident s k (\<lambda>e.
            if bnd s e then
              Some \<lparr>f_span = (i, e), f_table = [], f_field = slice s k e\<rparr>
            else None))
      else None)"

section \<open>Findings\<close>

record finding =
  table :: "string option"
  field :: string
  span :: "nat \<times> nat"
  suggested_statement :: string

definition todo_comment :: "string \<Rightarrow> string \<Rightarrow> string" where
  "todo_comment tbl fld =
     ''* TODO: '' @ upper tbl @ ''-'' @ upper fld @
     '' is obsolete in S/4HANA (SAP Note 2267246). '' @
     ''The related functionality is no longer available; remove or replace usage.''"

definition todo_comment_dataelement :: "string \<Rightarrow> string" where
  "todo_comment_dataelement fld =
     ''* TODO: Data element '' @ upper fld @
     '' relates to obsolete field in S/4HANA (SAP Note 2267246). '' @
     ''Remove or replace usage.''"

text \<open>
  The body shared by the three loops over qualified matches: the finding of one match
  \<open>fm\<close>, if its table is in the registry and its field is obsolete for that table.
\<close>

definition qualified_hit :: "field_match \<Rightarrow> finding list" where
  "qualified_hit fm =
     (let tbl = upper (f_table fm); fld = upper (f_field fm)
      in case OBSOLETE_FIELDS tbl of
           None \<Rightarrow> []
         | Some flds \<Rightarrow>
             if fld \<in> set flds then
               [\<lparr>table = Some tbl, field = fld, span = f_span fm,
                 suggested_statement = todo_comment tbl fld\<rparr>]
             else [])"

text \<open>\<^verbatim>\<open>for fm in QUALIFIED_FIELD_RE.finditer(part)\<close>: the offsets are those of \<open>part\<close>.\<close>

definition qualified_hits :: "string \<Rightarrow> finding list" where
  "qualified_hits part =
     concat (map qualified_hit (finditer (QUALIFIED_FIELD_RE part) (\<lambda>fm. snd (f_span fm)) (length part) 0))"

text \<open>The loop over the unqualified tokens of the selection list of the match \<open>m\<close>.\<close>

definition unqualified_hit :: "sql_match \<Rightarrow> string \<Rightarrow> finding list" where
  "unqualified_hit m fld =
     (let tbl = upper (m_table m); fld_up = upper (remove_dots fld)
      in if fld_up \<in> set (case OBSOLETE_FIELDS tbl of None \<Rightarrow> [] | Some flds \<Rightarrow> flds) then
           [\<lparr>table = Some tbl, field = fld_up, span = m_span m,
             suggested_statement = todo_comment tbl fld_up\<rparr>]
         else [])"

definition unqualified_hits :: "sql_match \<Rightarrow> finding list" where
  "unqualified_hits m = concat (map (unqualified_hit m) (re_split (strip (select_part m))))"

definition sql_matches :: "string \<Rightarrow> sql_match list" where
  "sql_matches code = finditer (SQL_STMT_RE code) (\<lambda>m. snd (m_span m)) (length code) 0"

definition scan_match :: "sql_match \<Rightarrow> finding list" where
  "scan_match m = qualified_hits (select_part m) @ unqualified_hits m @ qualified_hits (rest_part m)"

definition scan_sql :: "string \<Rightarrow> finding list" where
  "scan_sql code = concat (map scan_match (sql_matches code))"

definition decl_qual_matches :: "string \<Rightarrow> field_match list" where
  "decl_qual_matches code = finditer (DECLARATION_QUAL_RE code) (\<lambda>fm. snd (f_span fm)) (length code) 0"

definition decl_de_matches :: "string \<Rightarrow> field_match list" where
  "decl_de_matches code = finditer (DECLARATION_DE_RE code) (\<lambda>fm. snd (f_span fm)) (length code) 0"

definition dataelement_hit :: "field_match \<Rightarrow> finding list" where
  "dataelement_hit fm =
     (let fld = upper (f_field fm)
      in if fld \<in> OBSOLETE_FIELDNAMES then
           [\<lparr>table = None, field = fld, span = f_span fm,
             suggested_statement = todo_comment_dataelement fld\<rparr>]
         else [])"

definition scan_declarations :: "string \<Rightarrow> finding list" where
  "scan_declarations code =
     concat (map qualified_hit (decl_qual_matches code)) @
     concat (map dataelement_hit (decl_de_matches code))"

section \<open>The batch operation\<close>

record Unit =
  pgm_name :: string
  inc_name :: string
  type :: string
  name :: "string option"
  start_line :: "int option"
  end_line :: "int option"
  code :: "string option"

text \<open>One entry of \<^verbatim>\<open>selects_metadata\<close>; \<open>sel_\<close> marks the keys a finding has too.\<close>

record select_meta =
  sel_table :: "string option"
  sel_field :: string
  target_type :: "string option"
  target_name :: "string option"
  start_char_in_unit :: nat
  end_char_in_unit :: nat
  used_fields :: "string list"
  ambiguous :: bool
  suggested_fields :: "string list option"
  sel_suggested_statement :: string

record response = Unit +
  selects :: "select_meta list"

text \<open>
  The dictionary both loops of \<^verbatim>\<open>remediate_array\<close> append for a hit. A table that is
  \<^verbatim>\<open>None\<close> or empty is false in \<^verbatim>\<open>if hit["table"]\<close>.
\<close>

definition select_of_hit :: "finding \<Rightarrow> select_meta" where
  "select_of_hit hit =
     \<lparr>sel_table = table hit, sel_field = field hit, target_type = None, target_name = None,
      start_char_in_unit = fst (span hit), end_char_in_unit = snd (span hit),
      used_fields =
        (case table hit of
           None \<Rightarrow> [field hit]
         | Some t \<Rightarrow> if t = [] then [field hit] else [t @ ''-'' @ field hit]),
      ambiguous = False, suggested_fields = None,
      sel_suggested_statement = suggested_statement hit\<rparr>"

text \<open>The body of the loop over the units; \<^verbatim>\<open>u.code or ""\<close> reads a missing text as empty.\<close>

definition remediate_unit :: "Unit \<Rightarrow> response" where
  "remediate_unit u =
     (let src = (case code u of None \<Rightarrow> [] | Some c \<Rightarrow> c);
          selects_metadata = map select_of_hit (scan_sql src) @ map select_of_hit (scan_declarations src)
      in Unit.extend u (response.fields selects_metadata))"

definition remediate_array :: "Unit list \<Rightarrow> response list" where
  "remediate_array units = map remediate_unit units"

section \<open>Notions used in the statements\<close>

text \<open>
  What every finding satisfies: its field is a registry name in upper case; a finding
  with a table names a watched table that lists the field, and carries the table note;
  a finding without a table carries the data-element note.
\<close>

definition registry_ok :: "finding \<Rightarrow> bool" where
  "registry_ok f =
     (field f \<in> OBSOLETE_FIELDNAMES \<and> upper (field f) = field f \<and>
      (case table f of
         Some t \<Rightarrow>
           (t = ''MARC'' \<or> t = ''MARD'') \<and>
           (\<exists>flds. OBSOLETE_FIELDS t = Some flds \<and> field f \<in> set flds) \<and>
           suggested_statement f =
             ''* TODO: '' @ t @ ''-'' @ field f @
             '' is obsolete in S/4HANA (SAP Note 2267246). The related functionality is no longer available; remove or replace usage.''
       | None \<Rightarrow>
           suggested_statement f =
             ''* TODO: Data element '' @ field f @
             '' relates to obsolete field in S/4HANA (SAP Note 2267246). Remove or replace usage.''))"

text \<open>
  The text with its ASCII letters in upper case, and the matches of the patterns on it:
  the spans are the same, the captured groups are in upper case.
\<close>

definition up_text :: "string \<Rightarrow> string" where
  "up_text s = map ascii_upper s"

definition up_sql :: "sql_match \<Rightarrow> sql_match" where
  "up_sql m = m\<lparr>select_part := up_text (select_part m), m_table := up_text (m_table m),
                rest_part := up_text (rest_part m)\<rparr>"

definition up_field :: "field_match \<Rightarrow> field_match" where
  "up_field fm = fm\<lparr>f_table := up_text (f_table fm), f_field := up_text (f_field fm)\<rparr>"


section \<open>Facts about the matching primitives\<close>

lemma finditer_sound:
  "m \<in> set (finditer re end_of n pos) \<Longrightarrow> \<exists>p. pos \<le> p \<and> p \<le> n \<and> re p = Some m"
proof (induction re end_of n pos rule: finditer.induct)
  case (1 re end_of n pos)
  show ?case
  proof (cases "n < pos")
    case True
    with "1.prems" show ?thesis by (simp add: finditer.simps)
  next
    case False
    show ?thesis
    proof (cases "re pos")
      case None
      with False "1.prems" have "m \<in> set (finditer re end_of n (Suc pos))"
        by (simp add: finditer.simps [of re end_of n pos])
      with "1.IH"(1) [OF False None] obtain p where "Suc pos \<le> p" "p \<le> n" "re p = Some m" by blast
      then show ?thesis by (intro exI [of _ p]) simp
    next
      case (Some a)
      with False "1.prems" have "m = a \<or> m \<in> set (finditer re end_of n (max (Suc pos) (end_of a)))"
        by (simp add: finditer.simps [of re end_of n pos])
      then show ?thesis
      proof
        assume "m = a"
        with Some False show ?thesis by (intro exI [of _ pos]) simp
      next
        assume "m \<in> set (finditer re end_of n (max (Suc pos) (end_of a)))"
        with "1.IH"(2) [OF False Some] obtain p where "max (Suc pos) (end_of a) \<le> p" "p \<le> n" "re p = Some m" by blast
        then show ?thesis by (intro exI [of _ p]) simp
      qed
    qed
  qed
qed

lemma in_concat_map: "x \<in> set xs \<Longrightarrow> y \<in> set (f x) \<Longrightarrow> y \<in> set (concat (map f xs))"
  by auto

lemma run_end_sat: "b \<le> j \<Longrightarrow> j < run_end P s b \<Longrightarrow> j < length s \<and> P (s ! j)"
proof -
  assume b: "b \<le> j" and j: "j < run_end P s b"
  let ?t = "takeWhile P (drop b s)"
  from b j have l: "j - b < length ?t" by (simp add: run_end_def)
  have "length ?t \<le> length (drop b s)" by (rule length_takeWhile_le)
  with l have jl: "j < length s" using b by simp
  from l have "?t ! (j - b) \<in> set ?t" by (rule nth_mem)
  then have "P (?t ! (j - b))" by (rule set_takeWhileD [THEN conjunct2])
  with l have "P (drop b s ! (j - b))" by (simp add: takeWhile_nth)
  with b jl show ?thesis by simp
qed

lemma run_end_le: "b \<le> j \<Longrightarrow> j < length s \<Longrightarrow> \<not> P (s ! j) \<Longrightarrow> run_end P s b \<le> j"
  using run_end_sat [of b j P s] by (meson not_le_imp_less)

lemma run_end_bound: "k < e \<Longrightarrow> e \<le> run_end P s k \<Longrightarrow> e \<le> length s"
proof -
  assume a: "k < e" "e \<le> run_end P s k"
  then have "k \<le> e - 1" "e - 1 < run_end P s k" by arith+
  from run_end_sat [OF this] a show ?thesis by arith
qed

lemma greedy_Some: "greedy k lo d = Some r \<Longrightarrow> \<exists>h. lo \<le> h \<and> h \<le> lo + d \<and> k h = Some r"
proof (induction d)
  case 0
  then show ?case by auto
next
  case (Suc d)
  show ?case
  proof (cases "k (lo + Suc d)")
    case None
    with Suc.prems have "greedy k lo d = Some r" by simp
    from Suc.IH [OF this] obtain h where "lo \<le> h" "h \<le> lo + d" "k h = Some r" by blast
    then show ?thesis by (intro exI [of _ h]) simp
  next
    case (Some a)
    with Suc.prems have "a = r" by simp
    with Some show ?thesis by (intro exI [of _ "lo + Suc d"]) simp
  qed
qed

lemma rep1_Some: "rep1 P s b k = Some r \<Longrightarrow> \<exists>h. b < h \<and> h \<le> run_end P s b \<and> k h = Some r"
proof -
  assume a: "rep1 P s b k = Some r"
  have ge: "b \<le> run_end P s b" by (simp add: run_end_def)
  from a have ne: "run_end P s b \<noteq> b" by (auto simp: rep1_def Let_def)
  with a have "greedy k (Suc b) (run_end P s b - Suc b) = Some r" by (simp add: rep1_def Let_def)
  from greedy_Some [OF this] obtain h where "Suc b \<le> h" "h \<le> Suc b + (run_end P s b - Suc b)" "k h = Some r"
    by blast
  with ge ne show ?thesis by (intro exI [of _ h]) simp
qed

lemma lazy_Some: "lazy k i d = Some r \<Longrightarrow> \<exists>j. i \<le> j \<and> j \<le> i + d \<and> k j = Some r"
proof (induction d arbitrary: i)
  case 0
  then show ?case by auto
next
  case (Suc d)
  show ?case
  proof (cases "k i")
    case None
    with Suc.prems have "lazy k (Suc i) d = Some r" by simp
    from Suc.IH [OF this] obtain j where "Suc i \<le> j" "j \<le> Suc i + d" "k j = Some r" by blast
    then show ?thesis by (intro exI [of _ j]) simp
  next
    case (Some a)
    with Suc.prems have "a = r" by simp
    with Some show ?thesis by (intro exI [of _ i]) simp
  qed
qed

lemma lit_nth: "lit s i p \<Longrightarrow> j < length p \<Longrightarrow> i + j < length s \<and> ascii_upper (s ! (i + j)) = p ! j"
proof -
  assume l: "lit s i p" and j: "j < length p"
  let ?x = "slice s i (i + length p)"
  from l have m: "map ascii_upper ?x = p" by (simp add: lit_def)
  then have len: "length ?x = length p" by (metis length_map)
  have "length ?x = min (length p) (length s - i)" by (simp add: slice_def)
  with len j have b: "i + j < length s" by simp
  from m j len have "ascii_upper (?x ! j) = p ! j" by (metis nth_map)
  moreover from j b have "?x ! j = s ! (i + j)" by (simp add: slice_def)
  ultimately show ?thesis using b by simp
qed

lemma slice_length: "e \<le> length s \<Longrightarrow> length (slice s k e) = e - k"
  by (simp add: slice_def)

lemma slice_run:
  assumes "e \<le> run_end P s k"
  shows "\<forall>c \<in> set (slice s k e). P c"
proof
  fix c assume "c \<in> set (slice s k e)"
  then obtain i where i: "i < length (slice s k e)" and c: "c = slice s k e ! i"
    by (auto simp: in_set_conv_nth)
  from i have b: "i < e - k" "k + i < length s" by (auto simp: slice_def)
  with c have "c = s ! (k + i)" by (simp add: slice_def)
  moreover from b assms have "k + i < run_end P s k" by simp
  then have "P (s ! (k + i))" using run_end_sat [of k "k + i" P s] by simp
  ultimately show "P c" by simp
qed

lemma space_run_stop:
  assumes "b < k" and "k \<le> run_end is_space s b" and "k < length s" and "\<not> is_space (s ! k)"
  shows "k = run_end is_space s b"
  using run_end_le [of b k s is_space] assms by simp

section \<open>Facts about characters and case\<close>

lemma ascii_upper_other: "\<not> (97 \<le> ord c \<and> ord c \<le> 122) \<Longrightarrow> ascii_upper c = c"
  unfolding ascii_upper_def Let_def by (rule if_not_P)

lemma ascii_upper_lower: "97 \<le> ord c \<and> ord c \<le> 122 \<Longrightarrow> ascii_upper c = char_of (ord c - 32)"
  unfolding ascii_upper_def Let_def by (rule if_P)

lemma ord_ascii_upper: "97 \<le> ord c \<and> ord c \<le> 122 \<Longrightarrow> ord (ascii_upper c) = ord c - 32"
proof -
  assume l: "97 \<le> ord c \<and> ord c \<le> 122"
  then have "ord c - 32 < 256" by arith
  then have "(ord c - 32) mod 256 = ord c - 32" by (rule mod_less)
  then show ?thesis by (simp add: ascii_upper_lower [OF l]) (simp add: ord_def)
qed

lemma ord_ascii_upper_range:
  assumes "97 \<le> ord c \<and> ord c \<le> 122"
  shows "65 \<le> ord (ascii_upper c) \<and> ord (ascii_upper c) \<le> 90"
proof -
  from assms have "ord (ascii_upper c) = ord c - 32" by (simp add: ord_ascii_upper)
  with assms show ?thesis by arith
qed

lemma au_idem: "ascii_upper (ascii_upper c) = ascii_upper c"
proof (cases "97 \<le> ord c \<and> ord c \<le> 122")
  case True
  from ord_ascii_upper_range [OF this]
  have "\<not> (97 \<le> ord (ascii_upper c) \<and> ord (ascii_upper c) \<le> 122)" by arith
  then show ?thesis by (simp add: ascii_upper_other)
next
  case False
  then show ?thesis by (simp add: ascii_upper_other)
qed

lemma au_ident: "is_ident (ascii_upper c) = is_ident c"
proof (cases "97 \<le> ord c \<and> ord c \<le> 122")
  case True
  from ord_ascii_upper_range [OF this] have "is_ident (ascii_upper c)"
    by (simp add: is_ident_def)
  moreover from True have "is_ident c" by (simp add: is_ident_def)
  ultimately show ?thesis by simp
next
  case False
  then show ?thesis by (simp add: ascii_upper_other)
qed

lemma au_word: "is_word (ascii_upper c) = is_word c"
proof (cases "97 \<le> ord c \<and> ord c \<le> 122")
  case True
  then have "is_ident c" by (simp add: is_ident_def)
  then have "is_word c" "is_word (ascii_upper c)" by (simp_all add: is_word_def au_ident)
  then show ?thesis by simp
next
  case False
  then show ?thesis by (simp add: ascii_upper_other)
qed

lemma au_space: "is_space (ascii_upper c) = is_space c"
proof (cases "97 \<le> ord c \<and> ord c \<le> 122")
  case True
  from ord_ascii_upper_range [OF this] have "\<not> is_space (ascii_upper c)"
    unfolding is_space_def Let_def by arith
  moreover from True have "\<not> is_space c" unfolding is_space_def Let_def by arith
  ultimately show ?thesis by simp
next
  case False
  then show ?thesis by (simp add: ascii_upper_other)
qed

lemma upper_chr_plain:
  assumes "\<not> (97 \<le> ord c \<and> ord c \<le> 122)" and "\<not> ord c = 223"
    and "\<not> (224 \<le> ord c \<and> ord c \<le> 254 \<and> ord c \<noteq> 247)"
  shows "upper_chr c = [c]"
  unfolding upper_chr_def Let_def using assms by (simp only: if_False)

lemma au_upper_chr: "upper_chr (ascii_upper c) = upper_chr c"
proof (cases "97 \<le> ord c \<and> ord c \<le> 122")
  case True
  then have "upper_chr c = [ascii_upper c]" by (simp add: upper_chr_def ascii_upper_lower)
  moreover from ord_ascii_upper_range [OF True]
  have "\<not> (97 \<le> ord (ascii_upper c) \<and> ord (ascii_upper c) \<le> 122)"
    "\<not> ord (ascii_upper c) = 223"
    "\<not> (224 \<le> ord (ascii_upper c) \<and> ord (ascii_upper c) \<le> 254 \<and> ord (ascii_upper c) \<noteq> 247)"
    by arith+
  then have "upper_chr (ascii_upper c) = [ascii_upper c]" by (rule upper_chr_plain)
  ultimately show ?thesis by simp
next
  case False
  then show ?thesis by (simp add: ascii_upper_other)
qed

lemma au_fixed:
  assumes "\<not> (65 \<le> ord d \<and> ord d \<le> 90)" and "\<not> (97 \<le> ord d \<and> ord d \<le> 122)"
  shows "(ascii_upper c = d) = (c = d)"
proof (cases "97 \<le> ord c \<and> ord c \<le> 122")
  case True
  from ord_ascii_upper_range [OF this] assms(1) have "ascii_upper c \<noteq> d" by auto
  moreover from True assms(2) have "c \<noteq> d" by auto
  ultimately show ?thesis by simp
next
  case False
  then show ?thesis by (simp add: ascii_upper_other)
qed

lemma au_dot: "(ascii_upper c = CHR ''.'') = (c = CHR ''.'')"
  by (rule au_fixed) (simp_all add: ord_def)

lemma au_comma: "(ascii_upper c = CHR '','') = (c = CHR '','')"
  by (rule au_fixed) (simp_all add: ord_def)

lemma au_newline: "(ascii_upper c = CHR 0x0A) = (c = CHR 0x0A)"
  by (rule au_fixed) (simp_all add: ord_def)

lemma au_sep: "is_sep (ascii_upper c) = is_sep c"
  by (simp add: is_sep_def au_comma au_space)

lemma ident_not_space: "is_ident c \<Longrightarrow> \<not> is_space c"
  by (auto simp: is_ident_def is_space_def Let_def)

lemma upper_chr_ident: "is_ident c \<Longrightarrow> length (upper_chr c) = 1"
  by (auto simp: is_ident_def upper_chr_def Let_def)

lemma upper_length_ident: "\<forall>c \<in> set x. is_ident c \<Longrightarrow> length (upper x) = length x"
  by (induction x) (simp_all add: upper_def upper_chr_ident)

lemma lit_ident:
  assumes "lit s i p" and "j < length p" and "is_ident (p ! j)"
  shows "i + j < length s \<and> is_ident (s ! (i + j))"
  using lit_nth [OF assms(1,2)] assms(3) au_ident [of "s ! (i + j)"] by simp

lemma lit_not_ident:
  assumes "lit s i p" and "j < length p" and "\<not> is_ident (p ! j)"
  shows "i + j < length s \<and> \<not> is_ident (s ! (i + j))"
  using lit_nth [OF assms(1,2)] assms(3) au_ident [of "s ! (i + j)"] by simp

lemma table_lit_start:
  assumes "lit s k ''MARC'' \<or> lit s k ''MARD''"
  shows "k < length s \<and> is_ident (s ! k)"
proof -
  have i: "is_ident (CHR ''M'')" by (simp add: is_ident_def ord_def)
  from assms show ?thesis
  proof
    assume "lit s k ''MARC''"
    from lit_ident [OF this, of 0] i show ?thesis by simp
  next
    assume "lit s k ''MARD''"
    from lit_ident [OF this, of 0] i show ?thesis by simp
  qed
qed

section \<open>Facts about the registry and the findings\<close>

lemma registry_cases:
  "OBSOLETE_FIELDS t = Some flds \<Longrightarrow> fld \<in> set flds \<Longrightarrow>
     (t = ''MARC'' \<or> t = ''MARD'') \<and> fld \<in> OBSOLETE_FIELDNAMES \<and> upper fld = fld \<and> upper t = t"
  by (auto simp: OBSOLETE_FIELDS_def OBSOLETE_FIELDNAMES_def upper_def upper_chr_def ord_def split: if_splits)

lemma fieldnames_upper: "fld \<in> OBSOLETE_FIELDNAMES \<Longrightarrow> upper fld = fld"
  by (auto simp: OBSOLETE_FIELDNAMES_def upper_def upper_chr_def ord_def)

lemma fieldnames_length: "n \<in> OBSOLETE_FIELDNAMES \<Longrightarrow> length n = 5"
  by (auto simp: OBSOLETE_FIELDNAMES_def)

lemma registry_finding_ok:
  assumes "OBSOLETE_FIELDS t = Some flds" and "fld \<in> set flds"
  shows "registry_ok \<lparr>table = Some t, field = fld, span = sp, suggested_statement = todo_comment t fld\<rparr>"
proof -
  from registry_cases [OF assms]
  have tc: "t = ''MARC'' \<or> t = ''MARD''" and "fld \<in> OBSOLETE_FIELDNAMES"
    and "upper fld = fld" and "upper t = t" by simp_all
  with assms show ?thesis
    by (simp add: registry_ok_def todo_comment_def)
qed

lemma qualified_hit_ok: "f \<in> set (qualified_hit fm) \<Longrightarrow> registry_ok f"
proof -
  assume f: "f \<in> set (qualified_hit fm)"
  show ?thesis
  proof (cases "OBSOLETE_FIELDS (upper (f_table fm))")
    case None
    with f show ?thesis by (simp add: qualified_hit_def)
  next
    case (Some flds)
    with f have "upper (f_field fm) \<in> set flds"
      and "f = \<lparr>table = Some (upper (f_table fm)), field = upper (f_field fm), span = f_span fm,
                suggested_statement = todo_comment (upper (f_table fm)) (upper (f_field fm))\<rparr>"
      by (simp_all add: qualified_hit_def Let_def split: if_splits)
    with Some show ?thesis by (simp add: registry_finding_ok)
  qed
qed

lemma unqualified_hit_ok: "f \<in> set (unqualified_hit m tok) \<Longrightarrow> registry_ok f"
proof -
  assume f: "f \<in> set (unqualified_hit m tok)"
  show ?thesis
  proof (cases "OBSOLETE_FIELDS (upper (m_table m))")
    case None
    with f show ?thesis by (simp add: unqualified_hit_def)
  next
    case (Some flds)
    with f have "upper (remove_dots tok) \<in> set flds"
      and "f = \<lparr>table = Some (upper (m_table m)), field = upper (remove_dots tok), span = m_span m,
                suggested_statement = todo_comment (upper (m_table m)) (upper (remove_dots tok))\<rparr>"
      by (simp_all add: unqualified_hit_def Let_def split: if_splits)
    with Some show ?thesis by (simp add: registry_finding_ok)
  qed
qed

lemma dataelement_hit_ok: "f \<in> set (dataelement_hit fm) \<Longrightarrow> registry_ok f"
  by (auto simp: dataelement_hit_def registry_ok_def Let_def todo_comment_dataelement_def
      dest: fieldnames_upper split: if_splits)

lemma scan_sql_ok: "f \<in> set (scan_sql src) \<Longrightarrow> registry_ok f"
  by (auto simp: scan_sql_def scan_match_def qualified_hits_def unqualified_hits_def
      dest: qualified_hit_ok unqualified_hit_ok)

lemma scan_declarations_ok: "f \<in> set (scan_declarations src) \<Longrightarrow> registry_ok f"
  by (auto simp: scan_declarations_def dest: qualified_hit_ok dataelement_hit_ok)

lemma qualified_hit_fields:
  assumes "f \<in> set (qualified_hit fm)"
  shows "table f = Some (upper (f_table fm)) \<and> field f = upper (f_field fm) \<and> span f = f_span fm \<and>
         suggested_statement f = todo_comment (upper (f_table fm)) (upper (f_field fm))"
  using assms by (auto simp: qualified_hit_def Let_def split: option.splits if_splits)

lemma dataelement_hit_fields:
  assumes "g \<in> set (dataelement_hit gm)"
  shows "table g = None \<and> field g = upper (f_field gm) \<and> span g = f_span gm \<and>
         upper (f_field gm) \<in> OBSOLETE_FIELDNAMES \<and>
         suggested_statement g = todo_comment_dataelement (upper (f_field gm))"
  using assms by (auto simp: dataelement_hit_def Let_def split: if_splits)

section \<open>The shape of a match\<close>

lemma sql_match_shape:
  assumes "SQL_STMT_RE s i = Some m"
  shows "\<exists>j k e. m_span m = (i, e) \<and> select_part m = slice s (i + 6) j \<and>
           m_table m = slice s k (k + 4) \<and> rest_part m = slice s (k + 4) e \<and>
           kw s i ''SELECT'' \<and> i + 6 \<le> j \<and> kw s j ''FROM'' \<and> j + 4 < k \<and>
           k \<le> run_end is_space s (j + 4) \<and> (lit s k ''MARC'' \<or> lit s k ''MARD'') \<and> bnd s (k + 4) \<and>
           k + 4 \<le> e \<and> e \<le> length s \<and> (kw s e ''SELECT'' \<or> at_end s e)"
proof -
  let ?fin = "\<lambda>j k e. if kw s e ''SELECT'' \<or> at_end s e then
                    Some \<lparr>m_span = (i, e), select_part = slice s (i + 6) j,
                          m_table = slice s k (k + 4), rest_part = slice s (k + 4) e\<rparr>
                  else None"
  let ?tab = "\<lambda>j k. if (lit s k ''MARC'' \<or> lit s k ''MARD'') \<and> bnd s (k + 4) then
                lazy (?fin j k) (k + 4) (length s - (k + 4)) else None"
  let ?frm = "\<lambda>j. if kw s j ''FROM'' then rep1 is_space s (j + 4) (?tab j) else None"
  from assms have sel: "kw s i ''SELECT''"
    and l1: "lazy ?frm (i + 6) (length s - (i + 6)) = Some m"
    by (simp_all add: SQL_STMT_RE_def split: if_splits)
  from lazy_Some [OF l1] obtain j where j: "i + 6 \<le> j" and fj: "?frm j = Some m" by blast
  from fj have frm: "kw s j ''FROM''" and r: "rep1 is_space s (j + 4) (?tab j) = Some m"
    by (simp_all split: if_splits)
  from rep1_Some [OF r] obtain k where k: "j + 4 < k" "k \<le> run_end is_space s (j + 4)"
    and tk: "?tab j k = Some m" by blast
  from tk have tl: "lit s k ''MARC'' \<or> lit s k ''MARD''" and b: "bnd s (k + 4)"
    and l2: "lazy (?fin j k) (k + 4) (length s - (k + 4)) = Some m"
    by (simp_all split: if_splits)
  from tl have "k + 3 < length s" using lit_nth [of s k "''MARC''" 3] lit_nth [of s k "''MARD''" 3] by auto
  then have kl: "k + 4 \<le> length s" by simp
  from lazy_Some [OF l2] obtain e where e: "k + 4 \<le> e" "e \<le> k + 4 + (length s - (k + 4))"
    and fe: "?fin j k e = Some m" by blast
  from e kl have el: "e \<le> length s" by simp
  from fe have la: "kw s e ''SELECT'' \<or> at_end s e"
    and m: "m = \<lparr>m_span = (i, e), select_part = slice s (i + 6) j,
                m_table = slice s k (k + 4), rest_part = slice s (k + 4) e\<rparr>"
    by (auto split: if_splits)
  from m have "m_span m = (i, e)" "select_part m = slice s (i + 6) j"
    "m_table m = slice s k (k + 4)" "rest_part m = slice s (k + 4) e" by simp_all
  with sel j frm k tl b e(1) el la show ?thesis by blast
qed

lemma decl_qual_shape:
  assumes "DECLARATION_QUAL_RE s p = Some fm"
  shows "\<exists>k e. f_span fm = (p, e) \<and> f_table fm = slice s k (k + 4) \<and> f_field fm = slice s (k + 5) e \<and>
           p + 4 < k \<and> k \<le> run_end is_space s (p + 4) \<and> k + 5 < e \<and> e \<le> run_end is_ident s (k + 5) \<and>
           (lit s p ''TYPE'' \<or> lit s p ''LIKE'') \<and> (lit s k ''MARC'' \<or> lit s k ''MARD'') \<and>
           lit s (k + 4) ''-''"
proof -
  let ?inner = "\<lambda>k e. Some \<lparr>f_span = (p, e), f_table = slice s k (k + 4), f_field = slice s (k + 5) e\<rparr>"
  let ?mid = "\<lambda>k. if (lit s k ''MARC'' \<or> lit s k ''MARD'') \<and> lit s (k + 4) ''-''
                  then rep1 is_ident s (k + 5) (?inner k) else None"
  from assms have kwd: "lit s p ''TYPE'' \<or> lit s p ''LIKE''"
    and pl: "rep1 is_space s (p + 4) ?mid = Some fm"
    by (simp_all add: DECLARATION_QUAL_RE_def split: if_splits)
  from rep1_Some [OF pl] obtain k where k: "p + 4 < k" "k \<le> run_end is_space s (p + 4)"
    and m: "?mid k = Some fm" by blast
  from m have tl: "lit s k ''MARC'' \<or> lit s k ''MARD''" and hy: "lit s (k + 4) ''-''"
    and pl2: "rep1 is_ident s (k + 5) (?inner k) = Some fm"
    by (simp_all split: if_splits)
  from rep1_Some [OF pl2] obtain e where e: "k + 5 < e" "e \<le> run_end is_ident s (k + 5)"
    and fm: "?inner k e = Some fm" by blast
  from fm have "f_span fm = (p, e)" "f_table fm = slice s k (k + 4)" "f_field fm = slice s (k + 5) e"
    by auto
  with k e kwd tl hy show ?thesis by blast
qed

lemma decl_de_shape:
  assumes "DECLARATION_DE_RE s p = Some gm"
  shows "\<exists>k e. f_span gm = (p, e) \<and> f_field gm = slice s k e \<and>
           p + 4 < k \<and> k \<le> run_end is_space s (p + 4) \<and> k < e \<and> e \<le> run_end is_ident s k"
proof -
  let ?inner = "\<lambda>k e. if bnd s e then Some \<lparr>f_span = (p, e), f_table = [], f_field = slice s k e\<rparr> else None"
  let ?mid = "\<lambda>k. rep1 is_ident s k (?inner k)"
  from assms have pl: "rep1 is_space s (p + 4) ?mid = Some gm"
    by (simp_all add: DECLARATION_DE_RE_def split: if_splits)
  from rep1_Some [OF pl] obtain k where k: "p + 4 < k" "k \<le> run_end is_space s (p + 4)"
    and m: "?mid k = Some gm" by blast
  from rep1_Some [OF m] obtain e where e: "k < e" "e \<le> run_end is_ident s k"
    and gm: "?inner k e = Some gm" by blast
  from gm have "f_span gm = (p, e)" "f_field gm = slice s k e"
    by (auto split: if_splits)
  with k e show ?thesis by blast
qed

lemma same_keyword_no_dataelement:
  assumes q: "DECLARATION_QUAL_RE s p = Some fm" and d: "DECLARATION_DE_RE s p = Some gm"
  shows "upper (f_field gm) \<notin> OBSOLETE_FIELDNAMES"
proof
  assume reg: "upper (f_field gm) \<in> OBSOLETE_FIELDNAMES"
  from decl_qual_shape [OF q] obtain k e where
    k: "p + 4 < k" "k \<le> run_end is_space s (p + 4)"
    and tl: "lit s k ''MARC'' \<or> lit s k ''MARD''" and hy: "lit s (k + 4) ''-''" by blast
  from decl_de_shape [OF d] obtain k' e' where
    g: "f_field gm = slice s k' e'"
    and k': "p + 4 < k'" "k' \<le> run_end is_space s (p + 4)"
    and e': "k' < e'" "e' \<le> run_end is_ident s k'" by blast
  from table_lit_start [OF tl] have ks: "k < length s" "\<not> is_space (s ! k)"
    by (simp_all add: ident_not_space)
  from run_end_sat [of k' k' is_ident s] e' have "k' < length s" "\<not> is_space (s ! k')"
    by (simp_all add: ident_not_space)
  with k' ks k have kk: "k' = k"
    using space_run_stop [of "p + 4" k s] space_run_stop [of "p + 4" k' s] by simp
  have "\<not> is_ident (CHR ''-'')" by (simp add: is_ident_def ord_def)
  with lit_not_ident [OF hy, of 0] have "k + 4 < length s" "\<not> is_ident (s ! (k + 4))" by simp_all
  then have "run_end is_ident s k \<le> k + 4" by (intro run_end_le) simp_all
  with e' kk have le: "e' \<le> k + 4" by simp
  from e' have el: "e' \<le> length s" by (rule run_end_bound)
  from slice_run [OF e'(2)] have "length (upper (f_field gm)) = length (slice s k' e')"
    unfolding g by (rule upper_length_ident)
  with el le kk have "length (upper (f_field gm)) \<le> 4" by (simp add: slice_length)
  with fieldnames_length [OF reg] show False by simp
qed

lemma scan_declarations_with_table:
  assumes "f \<in> set (scan_declarations src)" and "table f \<noteq> None"
  shows "\<exists>fm p. DECLARATION_QUAL_RE src p = Some fm \<and> f \<in> set (qualified_hit fm)"
proof -
  from assms(1) consider fm where "fm \<in> set (decl_qual_matches src)" "f \<in> set (qualified_hit fm)"
    | gm where "gm \<in> set (decl_de_matches src)" "f \<in> set (dataelement_hit gm)"
    by (auto simp: scan_declarations_def)
  then show ?thesis
  proof cases
    case 1
    from finditer_sound [OF 1(1) [unfolded decl_qual_matches_def]] 1(2) show ?thesis by blast
  next
    case 2
    with dataelement_hit_fields [OF 2(2)] assms(2) show ?thesis by simp
  qed
qed

lemma scan_declarations_without_table:
  assumes "g \<in> set (scan_declarations src)" and "table g = None"
  shows "\<exists>gm q. DECLARATION_DE_RE src q = Some gm \<and> g \<in> set (dataelement_hit gm)"
proof -
  from assms(1) consider fm where "fm \<in> set (decl_qual_matches src)" "g \<in> set (qualified_hit fm)"
    | gm where "gm \<in> set (decl_de_matches src)" "g \<in> set (dataelement_hit gm)"
    by (auto simp: scan_declarations_def)
  then show ?thesis
  proof cases
    case 1
    with qualified_hit_fields [OF 1(2)] assms(2) show ?thesis by simp
  next
    case 2
    from finditer_sound [OF 2(1) [unfolded decl_de_matches_def]] 2(2) show ?thesis by blast
  qed
qed

lemma ident_word: "is_ident c \<Longrightarrow> is_word c"
  by (simp add: is_word_def)

lemma bnd_inside: "0 < i \<Longrightarrow> i < length s \<Longrightarrow> is_word (s ! (i - 1)) \<Longrightarrow> is_word (s ! i) \<Longrightarrow> \<not> bnd s i"
  by (simp add: bnd_def)

lemma upper_chr_ident_eq: "is_ident c \<Longrightarrow> upper_chr c = [ascii_upper c]"
proof (cases "97 \<le> ord c \<and> ord c \<le> 122")
  case True
  then show ?thesis by (simp add: upper_chr_def ascii_upper_lower)
next
  case False
  assume "is_ident c"
  then have "ord c \<le> 122" unfolding is_ident_def Let_def by arith
  then have "\<not> ord c = 223" "\<not> (224 \<le> ord c \<and> ord c \<le> 254 \<and> ord c \<noteq> 247)" by arith+
  from upper_chr_plain [OF False this] ascii_upper_other [OF False] show ?thesis by simp
qed

lemma upper_ident_map: "\<forall>c \<in> set x. is_ident c \<Longrightarrow> upper x = map ascii_upper x"
  by (induction x) (simp_all add: upper_def upper_chr_ident_eq)

lemma less_four: "j < 4 \<Longrightarrow> j = 0 \<or> j = 1 \<or> j = 2 \<or> j = (3::nat)"
  by arith

lemma keyword_letters:
  assumes "lit s p ''TYPE'' \<or> lit s p ''LIKE''" and "j < 4"
  shows "p + j < length s \<and> is_ident (s ! (p + j))"
proof -
  have i: "is_ident (''TYPE'' ! j) \<and> is_ident (''LIKE'' ! j)"
    using less_four [OF assms(2)] by (auto simp: is_ident_def ord_def)
  from assms(1) show ?thesis
  proof
    assume l: "lit s p ''TYPE''"
    from lit_ident [OF l, of j] assms(2) i show ?thesis by simp
  next
    assume l: "lit s p ''LIKE''"
    from lit_ident [OF l, of j] assms(2) i show ?thesis by simp
  qed
qed

lemma table_letters:
  assumes "lit s k ''MARC'' \<or> lit s k ''MARD''" and "j < 4"
  shows "k + j < length s \<and> is_ident (s ! (k + j))"
proof -
  have i: "is_ident (''MARC'' ! j) \<and> is_ident (''MARD'' ! j)"
    using less_four [OF assms(2)] by (auto simp: is_ident_def ord_def)
  from assms(1) show ?thesis
  proof
    assume l: "lit s k ''MARC''"
    from lit_ident [OF l, of j] assms(2) i show ?thesis by simp
  next
    assume l: "lit s k ''MARD''"
    from lit_ident [OF l, of j] assms(2) i show ?thesis by simp
  qed
qed

lemma keyword_not_table:
  assumes "lit s q ''TYPE'' \<or> lit s q ''LIKE''" and "lit s q ''MARC'' \<or> lit s q ''MARD''"
  shows False
proof -
  from assms(1) have "ascii_upper (s ! q) = CHR ''T'' \<or> ascii_upper (s ! q) = CHR ''L''"
    using lit_nth [of s q "''TYPE''" 0] lit_nth [of s q "''LIKE''" 0] by auto
  moreover from assms(2) have "ascii_upper (s ! q) = CHR ''M''"
    using lit_nth [of s q "''MARC''" 0] lit_nth [of s q "''MARD''" 0] by auto
  ultimately show False by auto
qed

lemma lit_four: "length p = 4 \<Longrightarrow> lit s a p = (map ascii_upper (slice s a (a + 4)) = p)"
  by (simp add: lit_def)

lemma field_not_keyword:
  assumes l: "lit s a ''TYPE'' \<or> lit s a ''LIKE''" and e: "a < e" "e \<le> run_end is_ident s a"
    and n: "upper (slice s a e) \<in> OBSOLETE_FIELDNAMES"
  shows False
proof -
  from e have el: "e \<le> length s" by (rule run_end_bound)
  have u: "upper (slice s a e) = map ascii_upper (slice s a e)"
    by (rule upper_ident_map) (rule slice_run [OF e(2)])
  from fieldnames_length [OF n] u el have len: "e - a = 5" by (simp add: slice_length)
  have t: "take 4 (map ascii_upper (slice s a e)) = map ascii_upper (slice s a (a + 4))"
    using len by (simp add: slice_def take_map min_def)
  have "lit s a ''TYPE'' = (map ascii_upper (slice s a (a + 4)) = ''TYPE'')"
    "lit s a ''LIKE'' = (map ascii_upper (slice s a (a + 4)) = ''LIKE'')"
    by (rule lit_four, simp)+
  with l t have "take 4 (upper (slice s a e)) = ''TYPE'' \<or> take 4 (upper (slice s a e)) = ''LIKE''"
    unfolding u by metis
  moreover have "\<forall>x \<in> OBSOLETE_FIELDNAMES. take 4 x \<noteq> ''TYPE'' \<and> take 4 x \<noteq> ''LIKE''"
    by (simp add: OBSOLETE_FIELDNAMES_def)
  ultimately show False using n by blast
qed

lemma bnd_before_word:
  assumes "bnd s q" and "0 < q" and "q < length s" and "is_word (s ! q)"
  shows "\<not> is_word (s ! (q - 1))"
  using assms by (auto simp: bnd_def)

lemma decl_qual_keyword:
  "DECLARATION_QUAL_RE s p = Some fm \<Longrightarrow> bnd s p \<and> (lit s p ''TYPE'' \<or> lit s p ''LIKE'')"
  by (simp add: DECLARATION_QUAL_RE_def split: if_splits)

lemma decl_de_keyword:
  "DECLARATION_DE_RE s p = Some fm \<Longrightarrow> bnd s p \<and> (lit s p ''TYPE'' \<or> lit s p ''LIKE'')"
  by (simp add: DECLARATION_DE_RE_def split: if_splits)

lemma no_keyword_in_qualified_match:
  assumes kwp: "lit s p ''TYPE'' \<or> lit s p ''LIKE''"
    and k: "p + 4 < k" "k \<le> run_end is_space s (p + 4)"
    and tl: "lit s k ''MARC'' \<or> lit s k ''MARD''" and hy: "lit s (k + 4) ''-''"
    and e: "k + 5 < e" "e \<le> run_end is_ident s (k + 5)"
    and n: "upper (slice s (k + 5) e) \<in> OBSOLETE_FIELDNAMES"
    and bq: "bnd s q" and kwq: "lit s q ''TYPE'' \<or> lit s q ''LIKE''"
    and pq: "p < q" "q < e"
  shows False
proof -
  from keyword_letters [OF kwq, of 0] have ql: "q < length s" and qi: "is_ident (s ! q)" by simp_all
  from pq have q0: "0 < q" by simp
  from bnd_before_word [OF bq q0 ql ident_word [OF qi]] have prev: "\<not> is_word (s ! (q - 1))" .
  consider "q < p + 4" | "p + 4 \<le> q \<and> q < k" | "q = k" | "k < q \<and> q < k + 4" | "q = k + 4"
    | "q = k + 5" | "k + 5 < q" by arith
  then show False
  proof cases
    case 1
    with pq have "q - 1 - p < 4" "p + (q - 1 - p) = q - 1" by arith+
    with keyword_letters [OF kwp, of "q - 1 - p"] have "is_ident (s ! (q - 1))" by simp
    with prev show False by (simp add: ident_word)
  next
    case 2
    with k run_end_sat [of "p + 4" q is_space s] have "is_space (s ! q)" by simp
    with qi show False by (simp add: ident_not_space)
  next
    case 3
    with kwq have "lit s k ''TYPE'' \<or> lit s k ''LIKE''" by simp
    from keyword_not_table [OF this tl] show False .
  next
    case 4
    then have "q - 1 - k < 4" "k + (q - 1 - k) = q - 1" by arith+
    with table_letters [OF tl, of "q - 1 - k"] have "is_ident (s ! (q - 1))" by simp
    with prev show False by (simp add: ident_word)
  next
    case 5
    have "\<not> is_ident (CHR ''-'')" by (simp add: is_ident_def ord_def)
    with lit_not_ident [OF hy, of 0] have "\<not> is_ident (s ! (k + 4))" by simp
    with 5 qi show False by simp
  next
    case 6
    with kwq e n show False using field_not_keyword [of s "k + 5" e] by simp
  next
    case 7
    with pq e have "k + 5 \<le> q - 1" "q - 1 < run_end is_ident s (k + 5)" by arith+
    from run_end_sat [OF this] have "is_ident (s ! (q - 1))" by simp
    with prev show False by (simp add: ident_word)
  qed
qed

lemma no_keyword_in_dataelement_match:
  assumes kwq: "lit s q ''TYPE'' \<or> lit s q ''LIKE''"
    and k: "q + 4 < k" "k \<le> run_end is_space s (q + 4)"
    and e: "k < e" "e \<le> run_end is_ident s k"
    and n: "upper (slice s k e) \<in> OBSOLETE_FIELDNAMES"
    and bp: "bnd s p" and kwp: "lit s p ''TYPE'' \<or> lit s p ''LIKE''"
    and qp: "q < p" "p < e"
  shows False
proof -
  from keyword_letters [OF kwp, of 0] have pl: "p < length s" and pi: "is_ident (s ! p)" by simp_all
  from qp have p0: "0 < p" by simp
  from bnd_before_word [OF bp p0 pl ident_word [OF pi]] have prev: "\<not> is_word (s ! (p - 1))" .
  consider "p < q + 4" | "q + 4 \<le> p \<and> p < k" | "p = k" | "k < p" by arith
  then show False
  proof cases
    case 1
    with qp have "p - 1 - q < 4" "q + (p - 1 - q) = p - 1" by arith+
    with keyword_letters [OF kwq, of "p - 1 - q"] have "is_ident (s ! (p - 1))" by simp
    with prev show False by (simp add: ident_word)
  next
    case 2
    with k run_end_sat [of "q + 4" p is_space s] have "is_space (s ! p)" by simp
    with pi show False by (simp add: ident_not_space)
  next
    case 3
    with kwp e n show False using field_not_keyword [of s k e] by simp
  next
    case 4
    with qp e have "k \<le> p - 1" "p - 1 < run_end is_ident s k" by arith+
    from run_end_sat [OF this] have "is_ident (s ! (p - 1))" by simp
    with prev show False by (simp add: ident_word)
  qed
qed

lemma declaration_spans_disjoint:
  assumes q: "DECLARATION_QUAL_RE s p = Some fm" and f: "f \<in> set (qualified_hit fm)"
    and d: "DECLARATION_DE_RE s p' = Some gm" and g: "g \<in> set (dataelement_hit gm)"
  shows "snd (span f) \<le> fst (span g) \<or> snd (span g) \<le> fst (span f)"
proof -
  from decl_qual_shape [OF q] obtain k e where
    qs: "f_span fm = (p, e)" "f_field fm = slice s (k + 5) e"
      "p + 4 < k" "k \<le> run_end is_space s (p + 4)" "k + 5 < e" "e \<le> run_end is_ident s (k + 5)"
      "lit s p ''TYPE'' \<or> lit s p ''LIKE''" "lit s k ''MARC'' \<or> lit s k ''MARD''" "lit s (k + 4) ''-''"
    by blast
  from decl_de_shape [OF d] obtain k' e' where
    ds: "f_span gm = (p', e')" "f_field gm = slice s k' e'"
      "p' + 4 < k'" "k' \<le> run_end is_space s (p' + 4)" "k' < e'" "e' \<le> run_end is_ident s k'"
    by blast
  from qualified_hit_fields [OF f] qs have sf: "span f = (p, e)"
    and ff: "field f = upper (slice s (k + 5) e)" by simp_all
  from qualified_hit_ok [OF f] ff have nf: "upper (slice s (k + 5) e) \<in> OBSOLETE_FIELDNAMES"
    by (simp add: registry_ok_def)
  from dataelement_hit_fields [OF g] ds have sg: "span g = (p', e')"
    and ng: "upper (slice s k' e') \<in> OBSOLETE_FIELDNAMES" by simp_all
  from dataelement_hit_fields [OF g] have rg: "upper (f_field gm) \<in> OBSOLETE_FIELDNAMES" by simp
  from decl_qual_keyword [OF q] have kp: "bnd s p" "lit s p ''TYPE'' \<or> lit s p ''LIKE''" by simp_all
  from decl_de_keyword [OF d] have kp': "bnd s p'" "lit s p' ''TYPE'' \<or> lit s p' ''LIKE''" by simp_all
  have ne: "p \<noteq> p'"
  proof
    assume "p = p'"
    with d have "DECLARATION_DE_RE s p = Some gm" by simp
    from same_keyword_no_dataelement [OF q this] rg show False by simp
  qed
  show ?thesis
  proof (rule ccontr)
    assume "\<not> ?thesis"
    with sf sg have ov: "p' < e" "p < e'" by simp_all
    from ne consider "p < p'" | "p' < p" by arith
    then show False
    proof cases
      case 1
      from no_keyword_in_qualified_match [OF qs(7) qs(3) qs(4) qs(8) qs(9) qs(5) qs(6) nf kp'(1) kp'(2) 1 ov(1)]
      show False .
    next
      case 2
      from no_keyword_in_dataelement_match [OF kp'(2) ds(3) ds(4) ds(5) ds(6) ng kp(1) kp(2) 2 ov(2)]
      show False .
    qed
  qed
qed

lemma lazy_first:
  "lazy k i d = Some r \<Longrightarrow>
   \<exists>j. i \<le> j \<and> j \<le> i + d \<and> k j = Some r \<and> (\<forall>x. i \<le> x \<and> x < j \<longrightarrow> k x = None)"
proof (induction d arbitrary: i)
  case 0
  then show ?case by auto
next
  case (Suc d)
  show ?case
  proof (cases "k i")
    case None
    with Suc.prems have "lazy k (Suc i) d = Some r" by simp
    from Suc.IH [OF this] obtain j where j: "Suc i \<le> j" "j \<le> Suc i + d" "k j = Some r"
      and first: "\<forall>x. Suc i \<le> x \<and> x < j \<longrightarrow> k x = None" by blast
    have "\<forall>x. i \<le> x \<and> x < j \<longrightarrow> k x = None"
    proof (intro allI impI)
      fix x assume "i \<le> x \<and> x < j"
      then have "x = i \<or> (Suc i \<le> x \<and> x < j)" by arith
      with None first show "k x = None" by blast
    qed
    with j show ?thesis by (intro exI [of _ j]) simp
  next
    case (Some a)
    with Suc.prems have "a = r" by simp
    with Some show ?thesis by (intro exI [of _ i]) auto
  qed
qed

lemma rest_zone_stops_at_next_select:
  assumes "m \<in> set (sql_matches src)"
  shows "\<exists>i e. m_span m = (i, e) \<and> e \<le> length src \<and> length (rest_part m) \<le> e \<and>
           (kw src e ''SELECT'' \<or> at_end src e) \<and>
           (\<forall>x. e - length (rest_part m) \<le> x \<and> x < e \<longrightarrow> \<not> kw src x ''SELECT'')"
proof -
  from finditer_sound [OF assms [unfolded sql_matches_def]]
  obtain i where re: "SQL_STMT_RE src i = Some m" by blast
  let ?fin = "\<lambda>j k e. if kw src e ''SELECT'' \<or> at_end src e then
                    Some \<lparr>m_span = (i, e), select_part = slice src (i + 6) j,
                          m_table = slice src k (k + 4), rest_part = slice src (k + 4) e\<rparr>
                  else None"
  let ?tab = "\<lambda>j k. if (lit src k ''MARC'' \<or> lit src k ''MARD'') \<and> bnd src (k + 4) then
                lazy (?fin j k) (k + 4) (length src - (k + 4)) else None"
  let ?frm = "\<lambda>j. if kw src j ''FROM'' then rep1 is_space src (j + 4) (?tab j) else None"
  from re have l1: "lazy ?frm (i + 6) (length src - (i + 6)) = Some m"
    by (simp_all add: SQL_STMT_RE_def split: if_splits)
  from lazy_Some [OF l1] obtain j where fj: "?frm j = Some m" by blast
  then have r: "rep1 is_space src (j + 4) (?tab j) = Some m" by (simp_all split: if_splits)
  from rep1_Some [OF r] obtain k where tk: "?tab j k = Some m" by blast
  then have tl: "lit src k ''MARC'' \<or> lit src k ''MARD''"
    and l2: "lazy (?fin j k) (k + 4) (length src - (k + 4)) = Some m"
    by (simp_all split: if_splits)
  from tl have "k + 3 < length src"
    using lit_nth [of src k "''MARC''" 3] lit_nth [of src k "''MARD''" 3] by auto
  then have kl: "k + 4 \<le> length src" by simp
  from lazy_first [OF l2] obtain e where e: "k + 4 \<le> e" "e \<le> k + 4 + (length src - (k + 4))"
    and fe: "?fin j k e = Some m"
    and first: "\<forall>x. k + 4 \<le> x \<and> x < e \<longrightarrow> ?fin j k x = None" by blast
  from e kl have el: "e \<le> length src" by simp
  from fe have la: "kw src e ''SELECT'' \<or> at_end src e"
    and sp: "m_span m = (i, e)" and rp: "rest_part m = slice src (k + 4) e"
    by (auto split: if_splits)
  from rp el e have len: "length (rest_part m) = e - (k + 4)" by (simp add: slice_length)
  have "\<forall>x. e - length (rest_part m) \<le> x \<and> x < e \<longrightarrow> \<not> kw src x ''SELECT''"
  proof (intro allI impI)
    fix x assume "e - length (rest_part m) \<le> x \<and> x < e"
    with len e have "k + 4 \<le> x \<and> x < e" by arith
    with first have "?fin j k x = None" by blast
    then show "\<not> kw src x ''SELECT''" by (simp split: if_splits)
  qed
  with sp el la len e show ?thesis by (intro exI [of _ i] exI [of _ e]) simp
qed

section \<open>The scans do not depend on the case of ASCII letters\<close>

lemma up_text_length: "length (up_text s) = length s"
  by (simp add: up_text_def)

lemma up_text_nth: "i < length s \<Longrightarrow> up_text s ! i = ascii_upper (s ! i)"
  by (simp add: up_text_def)

lemma up_text_slice: "slice (up_text s) a b = up_text (slice s a b)"
  by (simp add: slice_def up_text_def take_map drop_map)

lemma up_text_lit: "lit (up_text s) i p = lit s i p"
  by (simp add: lit_def up_text_slice) (simp add: up_text_def comp_def au_idem)

lemma up_text_bnd: "bnd (up_text s) i = bnd s i"
proof -
  have a: "(0 < i \<and> i \<le> length s \<and> is_word (up_text s ! (i - 1))) = (0 < i \<and> i \<le> length s \<and> is_word (s ! (i - 1)))"
    by (cases "0 < i \<and> i \<le> length s") (auto simp: up_text_nth au_word)
  have b: "(i < length s \<and> is_word (up_text s ! i)) = (i < length s \<and> is_word (s ! i))"
    by (cases "i < length s") (auto simp: up_text_nth au_word)
  show ?thesis unfolding bnd_def up_text_length a b ..
qed

lemma up_text_kw: "kw (up_text s) i p = kw s i p"
  by (simp add: kw_def up_text_lit up_text_bnd)

lemma up_text_at_end: "at_end (up_text s) e = at_end s e"
proof -
  have "(Suc e = length s \<and> up_text s ! e = CHR 0x0A) = (Suc e = length s \<and> s ! e = CHR 0x0A)"
    by (cases "Suc e = length s") (auto simp: up_text_nth au_newline)
  then show ?thesis by (simp add: at_end_def up_text_length)
qed

lemma up_text_run_end:
  assumes "\<And>c. P (ascii_upper c) = P c"
  shows "run_end P (up_text s) i = run_end P s i"
proof -
  have "P \<circ> ascii_upper = P" using assms by (simp add: fun_eq_iff)
  then show ?thesis
    by (simp add: run_end_def up_text_def drop_map takeWhile_map)
qed

lemma up_text_upper: "upper (up_text x) = upper x"
  by (induction x) (simp_all add: upper_def up_text_def au_upper_chr)

lemma up_text_remove_dots: "remove_dots (up_text x) = up_text (remove_dots x)"
  by (induction x) (simp_all add: remove_dots_def up_text_def au_dot)

lemma dropWhile_up_text:
  assumes "\<And>c. P (ascii_upper c) = P c"
  shows "dropWhile P (up_text x) = up_text (dropWhile P x)"
  by (induction x) (simp_all add: up_text_def assms)

lemma takeWhile_up_text:
  assumes "\<And>c. P (ascii_upper c) = P c"
  shows "takeWhile P (up_text x) = up_text (takeWhile P x)"
  by (induction x) (simp_all add: up_text_def assms)

lemma up_text_rev: "rev (up_text x) = up_text (rev x)"
  by (simp add: up_text_def rev_map)

lemma up_text_strip: "strip (up_text x) = up_text (strip x)"
  by (simp add: strip_def dropWhile_up_text [of is_space, OF au_space] up_text_rev)

lemma up_text_empty: "up_text [] = []"
  by (simp add: up_text_def)

lemma up_text_Nil: "(up_text x = []) = (x = [])"
  by (simp add: up_text_def)

lemma re_split_last: "dropWhile (\<lambda>c. \<not> is_sep c) s = [] \<Longrightarrow> re_split s = [s]"
  by (subst re_split.simps) (simp only: Let_def refl if_True)

lemma re_split_more:
  "dropWhile (\<lambda>c. \<not> is_sep c) s \<noteq> [] \<Longrightarrow>
   re_split s = takeWhile (\<lambda>c. \<not> is_sep c) s # re_split (dropWhile is_sep (dropWhile (\<lambda>c. \<not> is_sep c) s))"
  by (subst re_split.simps) (simp only: Let_def if_False)

lemma up_text_re_split: "re_split (up_text x) = map up_text (re_split x)"
proof (induction x rule: re_split.induct)
  case (1 s)
  have ns: "\<And>c. (\<not> is_sep (ascii_upper c)) = (\<not> is_sep c)" by (simp add: au_sep)
  let ?r = "dropWhile (\<lambda>c. \<not> is_sep c) s"
  have dr: "dropWhile (\<lambda>c. \<not> is_sep c) (up_text s) = up_text ?r"
    by (rule dropWhile_up_text) (rule ns)
  have tk: "takeWhile (\<lambda>c. \<not> is_sep c) (up_text s) = up_text (takeWhile (\<lambda>c. \<not> is_sep c) s)"
    by (rule takeWhile_up_text) (rule ns)
  show ?case
  proof (cases "?r = []")
    case True
    then have "dropWhile (\<lambda>c. \<not> is_sep c) (up_text s) = []" by (simp only: dr up_text_Nil)
    from re_split_last [OF this] re_split_last [OF True] show ?thesis by simp
  next
    case False
    then have ne: "dropWhile (\<lambda>c. \<not> is_sep c) (up_text s) \<noteq> []" by (simp only: dr up_text_Nil not_False_eq_True)
    from "1.IH" [OF refl False]
    have ih: "re_split (up_text (dropWhile is_sep ?r)) = map up_text (re_split (dropWhile is_sep ?r))" .
    have "re_split (up_text s) =
        up_text (takeWhile (\<lambda>c. \<not> is_sep c) s) # re_split (up_text (dropWhile is_sep ?r))"
      unfolding re_split_more [OF ne] dr tk dropWhile_up_text [of is_sep, OF au_sep] ..
    also have "\<dots> = map up_text (re_split s)"
      unfolding re_split_more [OF False] ih by simp
    finally show ?thesis .
  qed
qed

lemma lazy_map:
  assumes "\<And>j. k' j = map_option g (k j)"
  shows "lazy k' i d = map_option g (lazy k i d)"
  by (induction d arbitrary: i) (simp_all add: assms split: option.splits)

lemma greedy_map:
  assumes "\<And>j. k' j = map_option g (k j)"
  shows "greedy k' lo d = map_option g (greedy k lo d)"
  by (induction d) (simp_all add: assms split: option.splits)

lemma rep1_map:
  assumes "\<And>j. k' j = map_option g (k j)" and "\<And>c. P (ascii_upper c) = P c"
  shows "rep1 P (up_text s) b k' = map_option g (rep1 P s b k)"
  by (simp add: rep1_def Let_def up_text_run_end [of P, OF assms(2)] greedy_map [of k' g k, OF assms(1)])

lemma finditer_map:
  "(\<And>p. re' p = map_option g (re p)) \<Longrightarrow> (\<And>m. e' (g m) = e m) \<Longrightarrow>
   finditer re' e' n pos = map g (finditer re e n pos)"
proof (induction re e n pos rule: finditer.induct)
  case (1 re e n pos)
  note r = "1.prems"(1) and ee = "1.prems"(2)
  show ?case
  proof (cases "n < pos")
    case True
    then show ?thesis by (simp add: finditer.simps)
  next
    case False
    show ?thesis
    proof (cases "re pos")
      case None
      then have "re' pos = None" by (simp add: r)
      with None False "1.IH"(1) [OF False None r ee] show ?thesis
        by (simp add: finditer.simps [of re e n pos] finditer.simps [of re' e' n pos])
    next
      case (Some m)
      then have "re' pos = Some (g m)" by (simp add: r)
      with Some False "1.IH"(2) [OF False Some r ee] show ?thesis
        by (simp add: finditer.simps [of re e n pos] finditer.simps [of re' e' n pos] ee)
    qed
  qed
qed

lemma if_map: "a' = map_option g a \<Longrightarrow> (if c then a' else None) = map_option g (if c then a else None)"
  by simp

lemma up_text_SQL_STMT_RE: "SQL_STMT_RE (up_text s) i = map_option up_sql (SQL_STMT_RE s i)"
  unfolding SQL_STMT_RE_def up_text_kw up_text_lit up_text_bnd up_text_at_end up_text_length
  apply (rule if_map)
  apply (rule lazy_map)
  apply (rule if_map)
  apply (rule rep1_map)
   apply (rule if_map)
   apply (rule lazy_map)
   apply (rule if_map)
   apply (simp add: up_sql_def up_text_slice)
  apply (rule au_space)
  done

lemma up_text_QUALIFIED_FIELD_RE:
  "QUALIFIED_FIELD_RE (up_text s) i = map_option up_field (QUALIFIED_FIELD_RE s i)"
  unfolding QUALIFIED_FIELD_RE_def up_text_lit up_text_bnd
  apply (rule if_map)
  apply (rule rep1_map)
   apply (rule if_map)
   apply (simp add: up_field_def up_text_slice)
  apply (rule au_ident)
  done

lemma up_text_DECLARATION_QUAL_RE:
  "DECLARATION_QUAL_RE (up_text s) i = map_option up_field (DECLARATION_QUAL_RE s i)"
  unfolding DECLARATION_QUAL_RE_def up_text_lit up_text_bnd
  apply (rule if_map)
  apply (rule rep1_map)
   apply (rule if_map)
   apply (rule rep1_map)
    apply (simp add: up_field_def up_text_slice)
   apply (rule au_ident)
  apply (rule au_space)
  done

lemma up_text_DECLARATION_DE_RE:
  "DECLARATION_DE_RE (up_text s) i = map_option up_field (DECLARATION_DE_RE s i)"
  unfolding DECLARATION_DE_RE_def up_text_lit up_text_bnd
  apply (rule if_map)
  apply (rule rep1_map)
   apply (rule rep1_map)
    apply (rule if_map)
    apply (simp add: up_field_def up_text_slice up_text_empty)
   apply (rule au_ident)
  apply (rule au_space)
  done

lemma up_field_qualified_hit: "qualified_hit (up_field fm) = qualified_hit fm"
  by (simp add: qualified_hit_def Let_def up_field_def up_text_upper split: option.splits)

lemma up_field_dataelement_hit: "dataelement_hit (up_field fm) = dataelement_hit fm"
  by (simp add: dataelement_hit_def Let_def up_field_def up_text_upper)

lemma up_field_span: "snd (f_span (up_field fm)) = snd (f_span fm)"
  by (simp add: up_field_def)

lemma up_sql_span: "snd (m_span (up_sql m)) = snd (m_span m)"
  by (simp add: up_sql_def)

lemma up_text_qualified_hits: "qualified_hits (up_text part) = qualified_hits part"
proof -
  have "finditer (QUALIFIED_FIELD_RE (up_text part)) (\<lambda>fm. snd (f_span fm)) (length part) 0 =
        map up_field (finditer (QUALIFIED_FIELD_RE part) (\<lambda>fm. snd (f_span fm)) (length part) 0)"
    by (rule finditer_map) (simp_all add: up_text_QUALIFIED_FIELD_RE up_field_span)
  then show ?thesis
    by (simp add: qualified_hits_def up_text_length comp_def up_field_qualified_hit)
qed

lemma up_sql_unqualified_hit: "unqualified_hit (up_sql m) (up_text tok) = unqualified_hit m tok"
  by (simp add: unqualified_hit_def Let_def up_sql_def up_text_upper up_text_remove_dots)

lemma up_sql_unqualified_hits: "unqualified_hits (up_sql m) = unqualified_hits m"
proof -
  have "select_part (up_sql m) = up_text (select_part m)" by (simp add: up_sql_def)
  then show ?thesis
    by (simp add: unqualified_hits_def up_text_strip up_text_re_split comp_def up_sql_unqualified_hit)
qed

lemma up_sql_scan_match: "scan_match (up_sql m) = scan_match m"
proof -
  have "select_part (up_sql m) = up_text (select_part m)" "rest_part (up_sql m) = up_text (rest_part m)"
    by (simp_all add: up_sql_def)
  then show ?thesis
    by (simp add: scan_match_def up_text_qualified_hits up_sql_unqualified_hits)
qed

lemma up_text_scan_sql: "scan_sql (up_text src) = scan_sql src"
proof -
  have "sql_matches (up_text src) = map up_sql (sql_matches src)"
    unfolding sql_matches_def up_text_length
    by (rule finditer_map) (simp_all add: up_text_SQL_STMT_RE up_sql_span)
  then show ?thesis by (simp add: scan_sql_def comp_def up_sql_scan_match)
qed

lemma up_text_scan_declarations: "scan_declarations (up_text src) = scan_declarations src"
proof -
  have "decl_qual_matches (up_text src) = map up_field (decl_qual_matches src)"
    unfolding decl_qual_matches_def up_text_length
    by (rule finditer_map) (simp_all add: up_text_DECLARATION_QUAL_RE up_field_span)
  moreover have "decl_de_matches (up_text src) = map up_field (decl_de_matches src)"
    unfolding decl_de_matches_def up_text_length
    by (rule finditer_map) (simp_all add: up_text_DECLARATION_DE_RE up_field_span)
  ultimately show ?thesis
    by (simp add: scan_declarations_def comp_def up_field_qualified_hit up_field_dataelement_hit)
qed

section \<open>Declarations in a text of a given shape\<close>

lemma finditer_complete:
  "re p = Some m \<Longrightarrow> pos \<le> p \<Longrightarrow> p \<le> n \<Longrightarrow>
   (\<And>p0 m0. pos \<le> p0 \<Longrightarrow> p0 < p \<Longrightarrow> re p0 = Some m0 \<Longrightarrow> end_of m0 \<le> p) \<Longrightarrow>
   m \<in> set (finditer re end_of n pos)"
proof (induction re end_of n pos rule: finditer.induct)
  case (1 re end_of n pos)
  from "1.prems"(2,3) have np: "\<not> n < pos" by simp
  show ?case
  proof (cases "pos = p")
    case True
    with "1.prems"(1) np show ?thesis by (simp add: finditer.simps [of re end_of n p])
  next
    case False
    with "1.prems"(2) have lt: "pos < p" by simp
    show ?thesis
    proof (cases "re pos")
      case None
      have "m \<in> set (finditer re end_of n (Suc pos))"
      proof (rule "1.IH"(1) [OF np None "1.prems"(1) _ "1.prems"(3)])
        show "Suc pos \<le> p" using lt by simp
      next
        fix p0 m0 assume "Suc pos \<le> p0" "p0 < p" "re p0 = Some m0"
        then show "end_of m0 \<le> p" using "1.prems"(4) [of p0 m0] by simp
      qed
      with None np show ?thesis by (simp add: finditer.simps [of re end_of n pos])
    next
      case (Some m0)
      from "1.prems"(4) [OF le_refl lt Some] have e0: "end_of m0 \<le> p" .
      have "m \<in> set (finditer re end_of n (max (Suc pos) (end_of m0)))"
      proof (rule "1.IH"(2) [OF np Some "1.prems"(1) _ "1.prems"(3)])
        show "max (Suc pos) (end_of m0) \<le> p" using lt e0 by simp
      next
        fix p0 m1 assume "max (Suc pos) (end_of m0) \<le> p0" "p0 < p" "re p0 = Some m1"
        then show "end_of m1 \<le> p" using "1.prems"(4) [of p0 m1] by simp
      qed
      with Some np show ?thesis by (simp add: finditer.simps [of re end_of n pos])
    qed
  qed
qed

lemma greedy_top: "k (lo + d) = Some r \<Longrightarrow> greedy k lo d = Some r"
  by (cases d) simp_all

lemma rep1_top: "b < e \<Longrightarrow> run_end P s b = e \<Longrightarrow> k e = Some r \<Longrightarrow> rep1 P s b k = Some r"
proof -
  assume a: "b < e" "run_end P s b = e" "k e = Some r"
  then have "Suc b + (e - Suc b) = e" by simp
  with a(3) have "greedy k (Suc b) (e - Suc b) = Some r" by (intro greedy_top) simp
  with a show ?thesis by (simp add: rep1_def Let_def)
qed

lemma lit_append:
  "s = a @ x @ y \<Longrightarrow> i = length a \<Longrightarrow> length x = length K \<Longrightarrow> lit s i K = (map ascii_upper x = K)"
  by (simp add: lit_def slice_def)

lemma slice_append:
  "s = a @ x @ y \<Longrightarrow> i = length a \<Longrightarrow> j = length a + length x \<Longrightarrow> slice s i j = x"
  by (simp add: slice_def)

lemma run_end_append:
  assumes "s = a @ x @ y" and "i = length a" and "\<forall>c \<in> set x. P c" and "y = [] \<or> \<not> P (hd y)"
  shows "run_end P s i = length a + length x"
proof -
  from assms(4) have "takeWhile P y = []" by (cases y) auto
  with assms(3) have "takeWhile P (x @ y) = x" by (simp add: takeWhile_append2)
  with assms(1,2) show ?thesis by (simp add: run_end_def)
qed

lemma bnd_append:
  assumes "s = a @ b" and "i = length a"
  shows "bnd s i = ((a \<noteq> [] \<and> is_word (last a)) \<noteq> (b \<noteq> [] \<and> is_word (hd b)))"
proof -
  have l: "(0 < i \<and> i \<le> length s \<and> is_word (s ! (i - 1))) = (a \<noteq> [] \<and> is_word (last a))"
  proof (cases "a = []")
    case True
    with assms show ?thesis by simp
  next
    case False
    then have "(a @ b) ! (length a - 1) = last a" by (simp add: nth_append last_conv_nth)
    with False assms show ?thesis by simp
  qed
  have r: "(i < length s \<and> is_word (s ! i)) = (b \<noteq> [] \<and> is_word (hd b))"
  proof (cases "b = []")
    case True
    with assms show ?thesis by simp
  next
    case False
    then have "(a @ b) ! length a = hd b" by (simp add: nth_append hd_conv_nth)
    with False assms show ?thesis by simp
  qed
  show ?thesis unfolding bnd_def l r ..
qed

lemma space_not_word: "is_space c \<Longrightarrow> \<not> is_word c"
  unfolding is_space_def is_word_def is_ident_def Let_def by arith

lemma au_preimage_ident:
  assumes "map ascii_upper x = K" and "\<forall>c \<in> set K. is_ident c"
  shows "\<forall>c \<in> set x. is_ident c"
proof
  fix c assume "c \<in> set x"
  then have "ascii_upper c \<in> set (map ascii_upper x)" by simp
  with assms have "is_ident (ascii_upper c)" by simp
  then show "is_ident c" by (simp add: au_ident)
qed

lemma keyword_text:
  assumes "map ascii_upper key = ''TYPE'' \<or> map ascii_upper key = ''LIKE''"
  shows "length key = 4 \<and> (\<forall>c \<in> set key. is_ident c)"
proof -
  have i: "\<forall>c \<in> set ''TYPE''. is_ident c" "\<forall>c \<in> set ''LIKE''. is_ident c"
    by (simp_all add: is_ident_def ord_def)
  from assms show ?thesis
  proof
    assume a: "map ascii_upper key = ''TYPE''"
    then have "length (map ascii_upper key) = 4" by simp
    with au_preimage_ident [OF a i(1)] show ?thesis by simp
  next
    assume a: "map ascii_upper key = ''LIKE''"
    then have "length (map ascii_upper key) = 4" by simp
    with au_preimage_ident [OF a i(2)] show ?thesis by simp
  qed
qed

lemma table_text:
  assumes "map ascii_upper tbl = ''MARC'' \<or> map ascii_upper tbl = ''MARD''"
  shows "length tbl = 4 \<and> (\<forall>c \<in> set tbl. is_ident c)"
proof -
  have i: "\<forall>c \<in> set ''MARC''. is_ident c" "\<forall>c \<in> set ''MARD''. is_ident c"
    by (simp_all add: is_ident_def ord_def)
  from assms show ?thesis
  proof
    assume a: "map ascii_upper tbl = ''MARC''"
    then have "length (map ascii_upper tbl) = 4" by simp
    with au_preimage_ident [OF a i(1)] show ?thesis by simp
  next
    assume a: "map ascii_upper tbl = ''MARD''"
    then have "length (map ascii_upper tbl) = 4" by simp
    with au_preimage_ident [OF a i(2)] show ?thesis by simp
  qed
qed

lemma fieldnames_ident: "n \<in> OBSOLETE_FIELDNAMES \<Longrightarrow> n \<noteq> [] \<and> (\<forall>c \<in> set n. is_ident c)"
  by (auto simp: OBSOLETE_FIELDNAMES_def is_ident_def ord_def)

lemma field_text:
  assumes "map ascii_upper fld \<in> OBSOLETE_FIELDNAMES"
  shows "fld \<noteq> [] \<and> (\<forall>c \<in> set fld. is_ident c)"
proof -
  from fieldnames_ident [OF assms] have "map ascii_upper fld \<noteq> []"
    and i: "\<forall>c \<in> set (map ascii_upper fld). is_ident c" by simp_all
  from au_preimage_ident [OF refl i] \<open>map ascii_upper fld \<noteq> []\<close> show ?thesis by simp
qed

lemma hyphen_lit: "lit s i ''-'' \<Longrightarrow> s ! i = CHR ''-''"
proof -
  assume "lit s i ''-''"
  from lit_nth [OF this, of 0] have "ascii_upper (s ! i) = CHR ''-''" by simp
  moreover have "(ascii_upper (s ! i) = CHR ''-'') = (s ! i = CHR ''-'')"
    by (rule au_fixed) (simp_all add: ord_def)
  ultimately show ?thesis by simp
qed

lemma decl_qual_at:
  assumes s: "s = pre @ key @ ws @ tbl @ ''-'' @ fld @ post"
    and pre: "pre = [] \<or> \<not> is_word (last pre)"
    and key: "map ascii_upper key = ''TYPE'' \<or> map ascii_upper key = ''LIKE''"
    and ws: "ws \<noteq> []" "\<forall>c \<in> set ws. is_space c"
    and tbl: "map ascii_upper tbl = ''MARC'' \<or> map ascii_upper tbl = ''MARD''"
    and fld: "fld \<noteq> []" "\<forall>c \<in> set fld. is_ident c"
    and post: "post = [] \<or> \<not> is_ident (hd post)"
  shows "DECLARATION_QUAL_RE s (length pre) =
           Some \<lparr>f_span = (length pre, length pre + 4 + length ws + 5 + length fld),
                 f_table = tbl, f_field = fld\<rparr>"
proof -
  let ?p = "length pre"
  let ?k = "length pre + 4 + length ws"
  let ?e = "length pre + 4 + length ws + 5 + length fld"
  from keyword_text [OF key] have kl: "length key = 4" and ki: "\<forall>c \<in> set key. is_ident c" by simp_all
  from table_text [OF tbl] have tl: "length tbl = 4" and ti: "\<forall>c \<in> set tbl. is_ident c" by simp_all
  from kl have kne: "key \<noteq> []" by auto
  from tl have tne: "tbl \<noteq> []" by auto
  from kne ki have kh: "is_word (hd key)" "is_word (last key)" by (simp_all add: ident_word)
  from tne ti have th: "\<not> is_space (hd tbl)" by (simp add: ident_not_space)
  from ws have wh: "\<not> is_word (hd ws)" by (simp add: space_not_word)
  have b1: "bnd s ?p"
    using bnd_append [of s pre "key @ ws @ tbl @ ''-'' @ fld @ post" ?p] s pre kne kh by auto
  have b2: "bnd s (?p + 4)"
    using bnd_append [of s "pre @ key" "ws @ tbl @ ''-'' @ fld @ post" "?p + 4"] s kl kne kh ws wh
    by auto
  have l1: "lit s ?p ''TYPE'' \<or> lit s ?p ''LIKE''"
    using lit_append [of s pre key "ws @ tbl @ ''-'' @ fld @ post" ?p] s kl key by simp
  have r1: "run_end is_space s (?p + 4) = ?k"
    using run_end_append [of s "pre @ key" ws "tbl @ ''-'' @ fld @ post" "?p + 4" is_space]
      s kl ws tne th by simp
  have l2: "lit s ?k ''MARC'' \<or> lit s ?k ''MARD''"
    using lit_append [of s "pre @ key @ ws" tbl "''-'' @ fld @ post" ?k] s kl tl tbl by simp
  have l3: "lit s (?k + 4) ''-''"
    using lit_append [of s "pre @ key @ ws @ tbl" "''-''" "fld @ post" "?k + 4" "''-''"] s kl tl
    by (simp add: ascii_upper_def ord_def)
  have r2: "run_end is_ident s (?k + 5) = ?e"
    using run_end_append [of s "pre @ key @ ws @ tbl @ ''-''" fld post "?k + 5" is_ident]
      s kl tl fld post by simp
  have s1: "slice s ?k (?k + 4) = tbl"
    using slice_append [of s "pre @ key @ ws" tbl "''-'' @ fld @ post" ?k "?k + 4"] s kl tl by simp
  have s2: "slice s (?k + 5) ?e = fld"
    using slice_append [of s "pre @ key @ ws @ tbl @ ''-''" fld post "?k + 5" ?e] s kl tl by simp
  let ?inner = "\<lambda>k e. Some \<lparr>f_span = (?p, e), f_table = slice s k (k + 4), f_field = slice s (k + 5) e\<rparr>"
  let ?mid = "\<lambda>k. if (lit s k ''MARC'' \<or> lit s k ''MARD'') \<and> lit s (k + 4) ''-''
                  then rep1 is_ident s (k + 5) (?inner k) else None"
  have "rep1 is_ident s (?k + 5) (?inner ?k) = ?inner ?k ?e"
    using fld(1) by (intro rep1_top [OF _ r2]) simp_all
  with l2 l3 have "?mid ?k = ?inner ?k ?e" by simp
  then have "rep1 is_space s (?p + 4) ?mid = ?inner ?k ?e"
    using ws(1) by (intro rep1_top [OF _ r1]) simp_all
  with b1 b2 l1 s1 s2 show ?thesis by (simp add: DECLARATION_QUAL_RE_def)
qed



lemma decl_qual_no_straddle:
  assumes s: "s = pre @ key @ rst"
    and key: "map ascii_upper key = ''TYPE'' \<or> map ascii_upper key = ''LIKE''"
    and pre: "pre = [] \<or> \<not> is_word (last pre) \<and> last pre \<noteq> CHR ''-''"
    and m0: "DECLARATION_QUAL_RE s p0 = Some m0" and lt: "p0 < length pre"
  shows "snd (f_span m0) \<le> length pre"
proof (rule ccontr)
  assume "\<not> ?thesis"
  let ?p = "length pre"
  from lt have ne: "pre \<noteq> []" by auto
  from keyword_text [OF key] have kl: "length key = 4" by simp
  from decl_qual_shape [OF m0] obtain k e where
    sp: "f_span m0 = (p0, e)"
    and k: "p0 + 4 < k" "k \<le> run_end is_space s (p0 + 4)"
    and e: "k + 5 < e" "e \<le> run_end is_ident s (k + 5)"
    and k0: "lit s p0 ''TYPE'' \<or> lit s p0 ''LIKE''"
    and tl: "lit s k ''MARC'' \<or> lit s k ''MARD''" and hy: "lit s (k + 4) ''-''" by blast
  from sp \<open>\<not> ?thesis\<close> have pe: "?p < e" by simp
  have litp: "lit s ?p ''TYPE'' \<or> lit s ?p ''LIKE''"
    using lit_append [of s pre key rst ?p] s kl key by simp
  from keyword_letters [OF litp, of 0] have pid: "is_ident (s ! ?p)" by simp
  from ne s have lastp: "s ! (?p - 1) = last pre" by (simp add: nth_append last_conv_nth)
  with pre ne have nw: "\<not> is_word (s ! (?p - 1))" and nh: "s ! (?p - 1) \<noteq> CHR ''-''" by simp_all
  consider "?p - 1 < p0 + 4" | "p0 + 4 \<le> ?p - 1 \<and> ?p - 1 < k" | "k \<le> ?p - 1 \<and> ?p - 1 < k + 4"
    | "?p - 1 = k + 4" | "k + 5 \<le> ?p - 1" by arith
  then show False
  proof cases
    case 1
    with lt have "?p - 1 - p0 < 4" "p0 + (?p - 1 - p0) = ?p - 1" by arith+
    with keyword_letters [OF k0, of "?p - 1 - p0"] have "is_ident (s ! (?p - 1))" by simp
    with nw show False by (simp add: ident_word)
  next
    case 2
    show False
    proof (cases "?p < k")
      case True
      with 2 k have "p0 + 4 \<le> ?p" "?p < run_end is_space s (p0 + 4)" by arith+
      from run_end_sat [OF this] have "is_space (s ! ?p)" by simp
      with pid show False by (simp add: ident_not_space)
    next
      case False
      with 2 have "?p = k" by arith
      with litp have "lit s k ''TYPE'' \<or> lit s k ''LIKE''" by simp
      from keyword_not_table [OF this tl] show False .
    qed
  next
    case 3
    then have "?p - 1 - k < 4" "k + (?p - 1 - k) = ?p - 1" by arith+
    with table_letters [OF tl, of "?p - 1 - k"] have "is_ident (s ! (?p - 1))" by simp
    with nw show False by (simp add: ident_word)
  next
    case 4
    with hyphen_lit [OF hy] nh show False by simp
  next
    case 5
    with pe e have "k + 5 \<le> ?p - 1" "?p - 1 < run_end is_ident s (k + 5)" by arith+
    from run_end_sat [OF this] have "is_ident (s ! (?p - 1))" by simp
    with nw show False by (simp add: ident_word)
  qed
qed


lemma qualified_declaration_found:
  assumes pre: "pre = [] \<or> \<not> is_word (last pre) \<and> last pre \<noteq> CHR ''-''"
    and key: "map ascii_upper key = ''TYPE'' \<or> map ascii_upper key = ''LIKE''"
    and ws: "ws \<noteq> []" "\<forall>c \<in> set ws. is_space c"
    and reg: "OBSOLETE_FIELDS (map ascii_upper tbl) = Some flds" "map ascii_upper fld \<in> set flds"
    and post: "post = [] \<or> \<not> is_ident (hd post)"
  shows "\<lparr>table = Some (map ascii_upper tbl), field = map ascii_upper fld,
           span = (length pre, length (pre @ key @ ws @ tbl @ ''-'' @ fld)),
           suggested_statement = todo_comment (map ascii_upper tbl) (map ascii_upper fld)\<rparr>
         \<in> set (scan_declarations (pre @ key @ ws @ tbl @ ''-'' @ fld @ post))"
proof -
  define s where "s = pre @ key @ ws @ tbl @ ''-'' @ fld @ post"
  from registry_cases [OF reg] have tb: "map ascii_upper tbl = ''MARC'' \<or> map ascii_upper tbl = ''MARD''"
    and fn: "map ascii_upper fld \<in> OBSOLETE_FIELDNAMES" by simp_all
  from field_text [OF fn] have fl: "fld \<noteq> []" "\<forall>c \<in> set fld. is_ident c" by simp_all
  from table_text [OF tb] have tl: "length tbl = 4" "\<forall>c \<in> set tbl. is_ident c" by simp_all
  from keyword_text [OF key] have kl: "length key = 4" by simp
  let ?fm = "\<lparr>f_span = (length pre, length pre + 4 + length ws + 5 + length fld),
              f_table = tbl, f_field = fld\<rparr>"
  from pre have pre': "pre = [] \<or> \<not> is_word (last pre)" by auto
  have at: "DECLARATION_QUAL_RE s (length pre) = Some ?fm"
    by (rule decl_qual_at [OF s_def pre' key ws tb fl post])
  have "?fm \<in> set (finditer (DECLARATION_QUAL_RE s) (\<lambda>fm. snd (f_span fm)) (length s) 0)"
  proof (rule finditer_complete [where re = "DECLARATION_QUAL_RE s" and p = "length pre", OF at])
    show "0 \<le> length pre" by simp
    show "length pre \<le> length s" by (simp add: s_def)
  next
    fix p0 m0 assume "p0 < length pre" "DECLARATION_QUAL_RE s p0 = Some m0"
    with decl_qual_no_straddle [of s pre key "ws @ tbl @ ''-'' @ fld @ post" p0 m0] key pre
    show "snd (f_span m0) \<le> length pre" by (simp add: s_def)
  qed
  then have m: "?fm \<in> set (decl_qual_matches s)" by (simp add: decl_qual_matches_def)
  have ut: "upper tbl = map ascii_upper tbl" by (rule upper_ident_map) (rule tl(2))
  have uf: "upper fld = map ascii_upper fld" by (rule upper_ident_map) (rule fl(2))
  let ?f = "\<lparr>table = Some (map ascii_upper tbl), field = map ascii_upper fld,
           span = (length pre, length (pre @ key @ ws @ tbl @ ''-'' @ fld)),
           suggested_statement = todo_comment (map ascii_upper tbl) (map ascii_upper fld)\<rparr>"
  have "length (pre @ key @ ws @ tbl @ ''-'' @ fld) = length pre + 4 + length ws + 5 + length fld"
    using kl tl by simp
  with reg have "?f \<in> set (qualified_hit ?fm)"
    by (simp add: qualified_hit_def Let_def ut uf)
  with m have "?f \<in> set (concat (map qualified_hit (decl_qual_matches s)))"
    by (intro in_concat_map [of ?fm]) simp_all
  then show ?thesis by (simp add: scan_declarations_def s_def)
qed


section \<open>Statement boundaries\<close>

text \<open>
  C1 (multi-statement isolation). The text holds two consecutive query statements, the
  first on the unwatched table ZTAB, the second on MARC. The lazy selection-list zone of
  the match that starts at the first \<^verbatim>\<open>SELECT\<close> runs over the end of the first
  statement and over the second \<^verbatim>\<open>SELECT\<close> until it meets \<^verbatim>\<open>FROM MARC\<close>: the one match
  spans both statements (offsets 0 to 43, the first statement ends at 20), and the field
  of the second statement is reported with that span. Only the remainder zone is stopped
  by the next \<^verbatim>\<open>SELECT\<close>.
\<close>

theorem multi_statement_swallowed:
  "scan_sql ''SELECT A FROM ZTAB. SELECT MEGRU FROM MARC.'' =
     [\<lparr>table = Some ''MARC'', field = ''MEGRU'', span = (0, 43),
        suggested_statement = todo_comment ''MARC'' ''MEGRU''\<rparr>] \<and>
   map select_part (sql_matches ''SELECT A FROM ZTAB. SELECT MEGRU FROM MARC.'') =
     ['' A FROM ZTAB. SELECT MEGRU ''] \<and>
   slice ''SELECT A FROM ZTAB. SELECT MEGRU FROM MARC.'' 0 20 = ''SELECT A FROM ZTAB. ''"
  by code_simp

text \<open>
  With the watched statement first, the match stops before the second statement; in
  every match the remainder zone ends at a \<^verbatim>\<open>SELECT\<close> keyword or at the end of the
  text, and holds no \<^verbatim>\<open>SELECT\<close> keyword before.
\<close>

lemma first_statement_watched:
  "scan_sql ''SELECT MEGRU FROM MARC. SELECT A FROM ZTAB.'' =
     [\<lparr>table = Some ''MARC'', field = ''MEGRU'', span = (0, 24),
        suggested_statement = todo_comment ''MARC'' ''MEGRU''\<rparr>] \<and>
   slice ''SELECT MEGRU FROM MARC. SELECT A FROM ZTAB.'' 0 24 = ''SELECT MEGRU FROM MARC. ''"
  by code_simp

section \<open>Spans of qualified references in a query\<close>

text \<open>
  C2 (qualified span precision). For \<^verbatim>\<open>SELECT MARC-MEGRU FROM MARC.\<close> the scanner
  emits one finding for MARC-MEGRU, but its span is (1, 11): the offsets of the reference
  inside the selection-list zone \<^verbatim>\<open>" MARC-MEGRU "\<close>, which starts at offset 6 of the
  text. In the text these offsets cover \<^verbatim>\<open>ELECT MARC\<close>; the reference itself is at
  (7, 17).
\<close>

theorem qualified_span_in_selection_list:
  "scan_sql ''SELECT MARC-MEGRU FROM MARC.'' =
     [\<lparr>table = Some ''MARC'', field = ''MEGRU'', span = (1, 11),
        suggested_statement = todo_comment ''MARC'' ''MEGRU''\<rparr>] \<and>
   slice ''SELECT MARC-MEGRU FROM MARC.'' 1 11 = ''ELECT MARC'' \<and>
   slice ''SELECT MARC-MEGRU FROM MARC.'' 7 17 = ''MARC-MEGRU'' \<and>
   map select_part (sql_matches ''SELECT MARC-MEGRU FROM MARC.'') = ['' MARC-MEGRU '']"
  by code_simp

section \<open>Statements on an unwatched table\<close>

text \<open>
  C3 (no false watched-table positive). The text is one query statement on the table
  ZTAB whose filter compares with the literal \<^verbatim>\<open>'FROM MARC'\<close>. The pattern does not stop
  at the first \<^verbatim>\<open>FROM\<close>: the selection-list zone grows until \<^verbatim>\<open>FROM MARC\<close> inside the
  literal, MARC is captured as the table, and the selected field MEGRU of ZTAB is
  reported as MARC-MEGRU.
\<close>

theorem unwatched_statement_flagged:
  "scan_sql ''SELECT MEGRU FROM ZTAB WHERE TXT = 'FROM MARC'.'' =
     [\<lparr>table = Some ''MARC'', field = ''MEGRU'', span = (0, 47),
        suggested_statement = todo_comment ''MARC'' ''MEGRU''\<rparr>] \<and>
   map select_part (sql_matches ''SELECT MEGRU FROM ZTAB WHERE TXT = 'FROM MARC'.'') =
     ['' MEGRU FROM ZTAB WHERE TXT = '' @ [CHR 0x27]]"
  by code_simp

text \<open>
  What does hold: a text in which no \<^verbatim>\<open>FROM\<close> keyword is followed by white space and
  a watched table name has no statement match, hence no finding of the query scan,
  whatever else it contains.
\<close>

lemma no_watched_from_no_findings:
  assumes "\<And>j k. kw src j ''FROM'' \<Longrightarrow> j + 4 < k \<Longrightarrow> k \<le> run_end is_space src (j + 4) \<Longrightarrow>
             \<not> ((lit src k ''MARC'' \<or> lit src k ''MARD'') \<and> bnd src (k + 4))"
  shows "scan_sql src = []"
proof -
  have "sql_matches src = []"
  proof (rule ccontr)
    assume "sql_matches src \<noteq> []"
    then obtain m where "m \<in> set (sql_matches src)" by (cases "sql_matches src") auto
    from finditer_sound [OF this [unfolded sql_matches_def]]
    obtain p where "SQL_STMT_RE src p = Some m" by blast
    from sql_match_shape [OF this] assms show False by blast
  qed
  then show ?thesis by (simp add: scan_sql_def)
qed

lemma unwatched_statement_with_qualified_filter:
  "scan_sql ''SELECT A FROM ZTAB WHERE X = MARC-MEGRU.'' = []"
  by code_simp

section \<open>The two declaration scans\<close>

text \<open>
  The qualified declaration \<^verbatim>\<open>DATA x TYPE MARC-ALTSL.\<close> gets one finding, from the
  qualified scan; the data-element scan emits nothing for it.
\<close>

theorem qualified_declaration_single_finding:
  "concat (map qualified_hit (decl_qual_matches ''DATA x TYPE MARC-ALTSL.'')) =
     [\<lparr>table = Some ''MARC'', field = ''ALTSL'', span = (7, 22),
        suggested_statement = todo_comment ''MARC'' ''ALTSL''\<rparr>] \<and>
   concat (map dataelement_hit (decl_de_matches ''DATA x TYPE MARC-ALTSL.'')) = [] \<and>
   scan_declarations ''DATA x TYPE MARC-ALTSL.'' =
     [\<lparr>table = Some ''MARC'', field = ''ALTSL'', span = (7, 22),
        suggested_statement = todo_comment ''MARC'' ''ALTSL''\<rparr>]"
  by code_simp

text \<open>
  C4 (declaration-scan overlap), as the code has it. Both scans run over the whole text
  and their findings are concatenated, the qualified ones first. On a qualified
  declaration the data-element pattern captures the table name, not the field after the
  hyphen: for \<^verbatim>\<open>DATA x TYPE MARC-ALTSL.\<close> its only match has the identifier MARC, which
  is no obsolete field. In no text do the span of a finding with a table and the span
  of a finding without a table overlap.
\<close>

theorem declaration_scans_apart:
  "map f_field (decl_de_matches ''DATA x TYPE MARC-ALTSL.'') = [''MARC''] \<and>
   (\<forall>src. scan_declarations src =
      concat (map qualified_hit (decl_qual_matches src)) @
      concat (map dataelement_hit (decl_de_matches src))) \<and>
   (\<forall>src f g.
      f \<in> set (scan_declarations src) \<and> g \<in> set (scan_declarations src) \<and>
      table f \<noteq> None \<and> table g = None \<longrightarrow>
      snd (span f) \<le> fst (span g) \<or> snd (span g) \<le> fst (span f))"
proof (intro conjI allI impI)
  show "map f_field (decl_de_matches ''DATA x TYPE MARC-ALTSL.'') = [''MARC'']" by code_simp
next
  fix src
  show "scan_declarations src =
      concat (map qualified_hit (decl_qual_matches src)) @
      concat (map dataelement_hit (decl_de_matches src))"
    by (simp add: scan_declarations_def)
next
  fix src f g
  assume a: "f \<in> set (scan_declarations src) \<and> g \<in> set (scan_declarations src) \<and>
      table f \<noteq> None \<and> table g = None"
  from a scan_declarations_with_table [of f src] obtain fm p
    where q: "DECLARATION_QUAL_RE src p = Some fm" and f: "f \<in> set (qualified_hit fm)" by blast
  from a scan_declarations_without_table [of g src] obtain gm p'
    where d: "DECLARATION_DE_RE src p' = Some gm" and g: "g \<in> set (dataelement_hit gm)" by blast
  from declaration_spans_disjoint [OF q f d g]
  show "snd (span f) \<le> fst (span g) \<or> snd (span g) \<le> fst (span f)" .
qed

theorem declaration_scans_apart_witness:
  "\<lparr>table = Some ''MARC'', field = ''ALTSL'', span = (7, 22),
     suggested_statement = todo_comment ''MARC'' ''ALTSL''\<rparr>
     \<in> set (scan_declarations ''DATA x TYPE MARC-ALTSL, y TYPE ALTSL.'') \<and>
   \<lparr>table = None, field = ''ALTSL'', span = (26, 36),
     suggested_statement = todo_comment_dataelement ''ALTSL''\<rparr>
     \<in> set (scan_declarations ''DATA x TYPE MARC-ALTSL, y TYPE ALTSL.'') \<and>
   ((22::nat) \<le> 26 \<or> (36::nat) \<le> 7)"
proof -
  let ?f = "\<lparr>table = Some ''MARC'', field = ''ALTSL'', span = (7, 22),
     suggested_statement = todo_comment ''MARC'' ''ALTSL''\<rparr>"
  let ?g = "\<lparr>table = None, field = ''ALTSL'', span = (26, 36),
     suggested_statement = todo_comment_dataelement ''ALTSL''\<rparr>"
  have e: "scan_declarations ''DATA x TYPE MARC-ALTSL, y TYPE ALTSL.'' = [?f, ?g]" by code_simp
  then have h: "?f \<in> set (scan_declarations ''DATA x TYPE MARC-ALTSL, y TYPE ALTSL.'') \<and>
      ?g \<in> set (scan_declarations ''DATA x TYPE MARC-ALTSL, y TYPE ALTSL.'') \<and>
      table ?f \<noteq> None \<and> table ?g = None" by simp
  from declaration_scans_apart
  have "snd (span ?f) \<le> fst (span ?g) \<or> snd (span ?g) \<le> fst (span ?f)"
    using h by blast
  with h show ?thesis by simp
qed

section \<open>Qualified declarations\<close>

text \<open>
  For \<^verbatim>\<open>DATA lv_x TYPE MARD-LSOBS.\<close> the span of the finding is (10, 25), the text
  \<^verbatim>\<open>TYPE MARD-LSOBS\<close> with the keyword; the reference alone is at (15, 25). In
  \<^verbatim>\<open>DATA a TYPE MARC-LIKE MARC-MEGRU.\<close> the keyword \<^verbatim>\<open>LIKE\<close> at offset 17 stands right
  after a hyphen: the one match of the scan, (7, 21), has read it as a field name, and
  \<^verbatim>\<open>LIKE MARC-MEGRU\<close> gets no finding.
\<close>

theorem qualified_declaration_span_with_keyword:
  "map span (scan_declarations ''DATA lv_x TYPE MARD-LSOBS.'') = [(10, 25)] \<and>
   map span (scan_declarations ''DATA lv_x TYPE MARD-LSOBS.'') \<noteq> [(15, 25)] \<and>
   slice ''DATA lv_x TYPE MARD-LSOBS.'' 10 25 = ''TYPE MARD-LSOBS'' \<and>
   slice ''DATA lv_x TYPE MARD-LSOBS.'' 15 25 = ''MARD-LSOBS'' \<and>
   scan_declarations ''DATA a TYPE MARC-LIKE MARC-MEGRU.'' = [] \<and>
   slice ''DATA a TYPE MARC-LIKE MARC-MEGRU.'' 17 32 = ''LIKE MARC-MEGRU'' \<and>
   map f_span (decl_qual_matches ''DATA a TYPE MARC-LIKE MARC-MEGRU.'') = [(7, 21)] \<and>
   last ''DATA a TYPE MARC-'' = CHR ''-''"
  by code_simp

text \<open>
  C5 (qualified declaration detection), as the code has it. For
  \<^verbatim>\<open>DATA lv_x TYPE MARD-LSOBS.\<close> the declaration scan emits exactly one finding: table
  MARD, field LSOBS, the table note, and the span (10, 25) of the whole match of the
  declaration pattern. In general, take any text that holds a qualified declaration:
  a keyword \<^verbatim>\<open>TYPE\<close> or \<^verbatim>\<open>LIKE\<close> in any letter case, at the start of the text or after
  a character that is neither a word character nor a hyphen, then white space, then a
  watched table, a hyphen and an obsolete field of that table in any letter case, the
  field followed by no further identifier character. The scan emits for it the finding
  with that table and field in upper case, the table note, and the span from the first
  letter of the keyword to the end of the field. Conversely every finding of
  \<open>scan_declarations\<close> with a table has a span that starts at the keyword and ends where
  the field ends; the reference \<^verbatim>\<open>TABLE-FIELD\<close> starts at an offset \<open>k\<close> more than four
  characters after the start of the span.
\<close>

theorem qualified_declaration_detection:
  "scan_declarations ''DATA lv_x TYPE MARD-LSOBS.'' =
     [\<lparr>table = Some ''MARD'', field = ''LSOBS'', span = (10, 25),
        suggested_statement =
          ''* TODO: MARD-LSOBS is obsolete in S/4HANA (SAP Note 2267246). The related functionality is no longer available; remove or replace usage.''\<rparr>] \<and>
   (\<forall>pre key ws tbl fld post flds.
      (pre = [] \<or> \<not> is_word (last pre) \<and> last pre \<noteq> CHR ''-'') \<and>
      (map ascii_upper key = ''TYPE'' \<or> map ascii_upper key = ''LIKE'') \<and>
      ws \<noteq> [] \<and> (\<forall>c \<in> set ws. is_space c) \<and>
      OBSOLETE_FIELDS (map ascii_upper tbl) = Some flds \<and> map ascii_upper fld \<in> set flds \<and>
      (post = [] \<or> \<not> is_ident (hd post)) \<longrightarrow>
      \<lparr>table = Some (map ascii_upper tbl), field = map ascii_upper fld,
        span = (length pre, length (pre @ key @ ws @ tbl @ ''-'' @ fld)),
        suggested_statement = todo_comment (map ascii_upper tbl) (map ascii_upper fld)\<rparr>
        \<in> set (scan_declarations (pre @ key @ ws @ tbl @ ''-'' @ fld @ post))) \<and>
   (\<forall>src f t.
      f \<in> set (scan_declarations src) \<and> table f = Some t \<longrightarrow>
      (\<exists>k. (lit src (fst (span f)) ''TYPE'' \<or> lit src (fst (span f)) ''LIKE'') \<and>
           fst (span f) + 4 < k \<and> k + 5 < snd (span f) \<and> snd (span f) \<le> length src \<and>
           t = upper (slice src k (k + 4)) \<and> lit src (k + 4) ''-'' \<and>
           field f = upper (slice src (k + 5) (snd (span f))) \<and>
           suggested_statement f = todo_comment t (field f)))"
proof (intro conjI allI impI)
  show "scan_declarations ''DATA lv_x TYPE MARD-LSOBS.'' =
     [\<lparr>table = Some ''MARD'', field = ''LSOBS'', span = (10, 25),
        suggested_statement =
          ''* TODO: MARD-LSOBS is obsolete in S/4HANA (SAP Note 2267246). The related functionality is no longer available; remove or replace usage.''\<rparr>]"
    by code_simp
next
  fix pre key ws tbl fld post flds
  assume a: "(pre = [] \<or> \<not> is_word (last pre) \<and> last pre \<noteq> CHR ''-'') \<and>
      (map ascii_upper key = ''TYPE'' \<or> map ascii_upper key = ''LIKE'') \<and>
      ws \<noteq> [] \<and> (\<forall>c \<in> set ws. is_space c) \<and>
      OBSOLETE_FIELDS (map ascii_upper tbl) = Some flds \<and> map ascii_upper fld \<in> set flds \<and>
      (post = [] \<or> \<not> is_ident (hd post))"
  then have p1: "pre = [] \<or> \<not> is_word (last pre) \<and> last pre \<noteq> CHR ''-''"
    and p2: "map ascii_upper key = ''TYPE'' \<or> map ascii_upper key = ''LIKE''"
    and p3: "ws \<noteq> []" and p4: "\<forall>c \<in> set ws. is_space c"
    and p5: "OBSOLETE_FIELDS (map ascii_upper tbl) = Some flds"
    and p6: "map ascii_upper fld \<in> set flds"
    and p7: "post = [] \<or> \<not> is_ident (hd post)" by blast+
  show "\<lparr>table = Some (map ascii_upper tbl), field = map ascii_upper fld,
        span = (length pre, length (pre @ key @ ws @ tbl @ ''-'' @ fld)),
        suggested_statement = todo_comment (map ascii_upper tbl) (map ascii_upper fld)\<rparr>
        \<in> set (scan_declarations (pre @ key @ ws @ tbl @ ''-'' @ fld @ post))"
    by (rule qualified_declaration_found [OF p1 p2 p3 p4 p5 p6 p7])
next
  fix src f t
  assume a: "f \<in> set (scan_declarations src) \<and> table f = Some t"
  from a scan_declarations_with_table [of f src] obtain fm p
    where q: "DECLARATION_QUAL_RE src p = Some fm" and f: "f \<in> set (qualified_hit fm)" by auto
  from decl_qual_shape [OF q] obtain k e where
    sh: "f_span fm = (p, e)" "f_table fm = slice src k (k + 4)" "f_field fm = slice src (k + 5) e"
      "p + 4 < k" "k + 5 < e" "e \<le> run_end is_ident src (k + 5)"
      "lit src p ''TYPE'' \<or> lit src p ''LIKE''" "lit src (k + 4) ''-''" by blast
  from sh(5,6) have el: "e \<le> length src" by (rule run_end_bound)
  from qualified_hit_fields [OF f] a sh el
  show "\<exists>k. (lit src (fst (span f)) ''TYPE'' \<or> lit src (fst (span f)) ''LIKE'') \<and>
           fst (span f) + 4 < k \<and> k + 5 < snd (span f) \<and> snd (span f) \<le> length src \<and>
           t = upper (slice src k (k + 4)) \<and> lit src (k + 4) ''-'' \<and>
           field f = upper (slice src (k + 5) (snd (span f))) \<and>
           suggested_statement f = todo_comment t (field f)"
    by (intro exI [of _ k]) auto
qed

theorem qualified_declaration_detection_witness:
  "\<not> is_word (last ''data: a,b '') \<and> last ''data: a,b '' \<noteq> CHR ''-'' \<and>
   map ascii_upper ''like'' = ''LIKE'' \<and> list_all is_space ''  '' \<and>
   OBSOLETE_FIELDS (map ascii_upper ''marc'') =
     Some [''MEGRU'', ''USEQU'', ''ALTSL'', ''MDACH'', ''DPLFS'', ''DPLPU'', ''DPLHO'', ''FHORI''] \<and>
   map ascii_upper ''megru'' = ''MEGRU'' \<and> \<not> is_ident (hd '', c.'') \<and>
   \<lparr>table = Some ''MARC'', field = ''MEGRU'', span = (10, 26),
     suggested_statement = todo_comment ''MARC'' ''MEGRU''\<rparr>
     \<in> set (scan_declarations ''data: a,b like  marc-megru, c.'') \<and>
   (\<exists>k. lit ''data: a,b like  marc-megru, c.'' 10 ''LIKE'' \<and> 10 + 4 < k \<and> k + 5 < 26 \<and>
        ''MARC'' = upper (slice ''data: a,b like  marc-megru, c.'' k (k + 4)) \<and>
        ''MEGRU'' = upper (slice ''data: a,b like  marc-megru, c.'' (k + 5) 26))"
proof -
  let ?flds = "[''MEGRU'', ''USEQU'', ''ALTSL'', ''MDACH'', ''DPLFS'', ''DPLPU'', ''DPLHO'', ''FHORI'']"
  let ?s = "''data: a,b like  marc-megru, c.''"
  let ?f = "\<lparr>table = Some ''MARC'', field = ''MEGRU'', span = (10, 26),
     suggested_statement = todo_comment ''MARC'' ''MEGRU''\<rparr>"
  have h1: "\<not> is_word (last ''data: a,b '') \<and> last ''data: a,b '' \<noteq> CHR ''-''" by code_simp
  have h2: "map ascii_upper ''like'' = ''LIKE''" by code_simp
  have h3: "''  '' \<noteq> [] \<and> (\<forall>c \<in> set ''  ''. is_space c)" by code_simp
  have h4: "map ascii_upper ''marc'' = ''MARC''" by code_simp
  have h5: "OBSOLETE_FIELDS ''MARC'' = Some ?flds" by (simp add: OBSOLETE_FIELDS_def)
  have h6: "map ascii_upper ''megru'' = ''MEGRU''" by code_simp
  have h7: "\<not> is_ident (hd '', c.'')" by code_simp
  have hyp: "(''data: a,b '' = [] \<or> \<not> is_word (last ''data: a,b '') \<and> last ''data: a,b '' \<noteq> CHR ''-'') \<and>
      (map ascii_upper ''like'' = ''TYPE'' \<or> map ascii_upper ''like'' = ''LIKE'') \<and>
      ''  '' \<noteq> [] \<and> (\<forall>c \<in> set ''  ''. is_space c) \<and>
      OBSOLETE_FIELDS (map ascii_upper ''marc'') = Some ?flds \<and> map ascii_upper ''megru'' \<in> set ?flds \<and>
      ('', c.'' = [] \<or> \<not> is_ident (hd '', c.''))"
    using h1 h2 h3 h4 h5 h6 h7 by simp
  have l1: "length ''data: a,b '' = 10" by simp
  have l2: "length (''data: a,b '' @ ''like'' @ ''  '' @ ''marc'' @ ''-'' @ ''megru'') = 26" by simp
  have cat: "''data: a,b '' @ ''like'' @ ''  '' @ ''marc'' @ ''-'' @ ''megru'' @ '', c.'' = ?s" by simp
  from qualified_declaration_detection [THEN conjunct2, THEN conjunct1, rule_format, OF hyp]
  have mem: "?f \<in> set (scan_declarations ?s)" unfolding h4 h6 l1 l2 cat .
  then have h: "?f \<in> set (scan_declarations ?s) \<and> table ?f = Some ''MARC''" by simp
  have nt: "\<not> lit ?s 10 ''TYPE''" by code_simp
  from qualified_declaration_detection [THEN conjunct2, THEN conjunct2, rule_format, OF h]
  obtain k where "(lit ?s 10 ''TYPE'' \<or> lit ?s 10 ''LIKE'') \<and> 10 + 4 < k \<and> k + 5 < 26 \<and>
      ''MARC'' = upper (slice ?s k (k + 4)) \<and> ''MEGRU'' = upper (slice ?s (k + 5) 26)"
    by auto
  with nt have ex: "\<exists>k. lit ?s 10 ''LIKE'' \<and> 10 + 4 < k \<and> k + 5 < 26 \<and>
        ''MARC'' = upper (slice ?s k (k + 4)) \<and> ''MEGRU'' = upper (slice ?s (k + 5) 26)" by blast
  from h4 h5 have h5': "OBSOLETE_FIELDS (map ascii_upper ''marc'') = Some ?flds" by (simp only:)
  from h3 have h3': "list_all is_space ''  ''" by (simp only: list_all_iff) blast
  from h1 h2 h3' h5' h6 h7 mem ex show ?thesis by blast
qed

section \<open>Unqualified fields of the selection list\<close>

text \<open>
  C6 (unqualified selection-list detection). The text holds a statement on the unwatched
  table MARA and then, from offset 24, the statement \<^verbatim>\<open>SELECT MATNR, MEGRU FROM MARC.\<close>
  The token MEGRU of the second statement is found, but the finding is anchored at
  (0, 54), the span of a match that starts at the first statement, not at the span
  (24, 54) of the statement the token belongs to.
\<close>

theorem unqualified_span_over_two_statements:
  "scan_sql ''SELECT MATNR FROM MARA. SELECT MATNR, MEGRU FROM MARC.'' =
     [\<lparr>table = Some ''MARC'', field = ''MEGRU'', span = (0, 54),
        suggested_statement = todo_comment ''MARC'' ''MEGRU''\<rparr>] \<and>
   map m_span (sql_matches ''SELECT MATNR FROM MARA. SELECT MATNR, MEGRU FROM MARC.'') = [(0, 54)] \<and>
   slice ''SELECT MATNR FROM MARA. SELECT MATNR, MEGRU FROM MARC.'' 24 54 =
     ''SELECT MATNR, MEGRU FROM MARC.''"
  by code_simp

text \<open>
  On a text that is one statement the span is that of the statement, here the whole
  text; tokens are cut at commas and white space and lose their periods.
\<close>

lemma unqualified_selection_list_example:
  "scan_sql ''SELECT MEGRU FROM MARC WHERE MATNR = '1'.'' =
     [\<lparr>table = Some ''MARC'', field = ''MEGRU'', span = (0, 41),
        suggested_statement =
          ''* TODO: MARC-MEGRU is obsolete in S/4HANA (SAP Note 2267246). The related functionality is no longer available; remove or replace usage.''\<rparr>] \<and>
   length ''SELECT MEGRU FROM MARC WHERE MATNR = '1'.'' = 41 \<and>
   map (\<lambda>f. (field f, span f)) (scan_sql ''SELECT matnr,usequ  megru. FROM marc WHERE x = 1'') =
     [(''USEQU'', (0, 48)), (''MEGRU'', (0, 48))]"
  by code_simp

section \<open>Declarations by data element\<close>




section \<open>Letter case\<close>

text \<open>
  C8 (case insensitivity). \<^verbatim>\<open>select megru from marc.\<close> and
  \<^verbatim>\<open>SELECT MEGRU FROM MARC.\<close> give the same list of findings: the one finding MARC,
  MEGRU with span (0, 23) and the table note. In general, putting the ASCII letters of
  a text in upper case changes the findings of neither scan: table, field, span and
  note are the same.
\<close>

theorem case_insensitivity:
  "scan_sql ''select megru from marc.'' = scan_sql ''SELECT MEGRU FROM MARC.'' \<and>
   scan_sql ''select megru from marc.'' =
     [\<lparr>table = Some ''MARC'', field = ''MEGRU'', span = (0, 23),
        suggested_statement =
          ''* TODO: MARC-MEGRU is obsolete in S/4HANA (SAP Note 2267246). The related functionality is no longer available; remove or replace usage.''\<rparr>] \<and>
   map ascii_upper ''select megru from marc.'' = ''SELECT MEGRU FROM MARC.'' \<and>
   (\<forall>src. scan_sql (map ascii_upper src) = scan_sql src \<and>
          scan_declarations (map ascii_upper src) = scan_declarations src)"
proof (intro conjI allI)
  fix src
  show "scan_sql (map ascii_upper src) = scan_sql src"
    using up_text_scan_sql [of src] by (simp add: up_text_def)
  show "scan_declarations (map ascii_upper src) = scan_declarations src"
    using up_text_scan_declarations [of src] by (simp add: up_text_def)
qed code_simp+

section \<open>Empty text\<close>

text \<open>
  C9 (empty input is not an error). Both scans return the empty list on the empty text.
  A unit whose text is \<^verbatim>\<open>None\<close>, or empty as the default of an absent field is, comes
  back from the batch operation unchanged with an empty \<^verbatim>\<open>selects\<close> list.
\<close>

theorem empty_text_no_findings:
  "scan_sql [] = [] \<and> scan_declarations [] = [] \<and>
   (\<forall>u. code u = None \<or> code u = Some [] \<longrightarrow>
      remediate_array [u] = [Unit.extend u (response.fields [])] \<and>
      map selects (remediate_array [u]) = [[]])"
proof (intro conjI allI impI)
  show s: "scan_sql [] = []" by code_simp
  show d: "scan_declarations [] = []" by code_simp
  fix u :: Unit
  assume "code u = None \<or> code u = Some []"
  then have r: "remediate_unit u = Unit.extend u (response.fields [])"
    by (auto simp: remediate_unit_def s d)
  then show "remediate_array [u] = [Unit.extend u (response.fields [])]"
    by (simp add: remediate_array_def)
  from r show "map selects (remediate_array [u]) = [[]]"
    by (simp add: remediate_array_def Unit.extend_def response.fields_def)
qed

theorem empty_text_no_findings_witness:
  "code \<lparr>pgm_name = ''ZPROG'', inc_name = ''ZINC'', type = ''FORM'', name = None,
          start_line = None, end_line = None, code = None\<rparr> = None \<and>
   remediate_array [\<lparr>pgm_name = ''ZPROG'', inc_name = ''ZINC'', type = ''FORM'', name = None,
          start_line = None, end_line = None, code = None\<rparr>] =
     [\<lparr>pgm_name = ''ZPROG'', inc_name = ''ZINC'', type = ''FORM'', name = None,
          start_line = None, end_line = None, code = None, selects = []\<rparr>]"
proof -
  let ?u = "\<lparr>pgm_name = ''ZPROG'', inc_name = ''ZINC'', type = ''FORM'', name = None,
          start_line = None, end_line = None, code = None\<rparr>"
  have h: "code ?u = None \<or> code ?u = Some []" by simp
  from empty_text_no_findings have "remediate_array [?u] = [Unit.extend ?u (response.fields [])]"
    using h by blast
  then show ?thesis by (simp add: Unit.extend_def response.fields_def)
qed

section \<open>The registry invariant holds\<close>

text \<open>
  C10 (output registry invariant). Every finding of \<open>scan_sql\<close> or \<open>scan_declarations\<close>
  has a field that is a member of the flattened obsolete-field set and is in upper case.
  If the finding has a table, the table is MARC or MARD, the field is in that table's
  list, and the suggested statement is the table note filled with that table and field;
  if it has none, the suggested statement is the data-element note filled with the field.
\<close>

theorem findings_in_registry:
  "f \<in> set (scan_sql src) \<union> set (scan_declarations src) \<Longrightarrow>
     field f \<in> OBSOLETE_FIELDNAMES \<and> upper (field f) = field f \<and>
     (case table f of
        Some t \<Rightarrow>
          (t = ''MARC'' \<or> t = ''MARD'') \<and>
          (\<exists>flds. OBSOLETE_FIELDS t = Some flds \<and> field f \<in> set flds) \<and>
          suggested_statement f =
            ''* TODO: '' @ t @ ''-'' @ field f @
            '' is obsolete in S/4HANA (SAP Note 2267246). The related functionality is no longer available; remove or replace usage.''
      | None \<Rightarrow>
          suggested_statement f =
            ''* TODO: Data element '' @ field f @
            '' relates to obsolete field in S/4HANA (SAP Note 2267246). Remove or replace usage.'')"
  using scan_sql_ok [of f src] scan_declarations_ok [of f src]
  unfolding registry_ok_def by blast

theorem findings_in_registry_witness:
  "\<lparr>table = Some ''MARC'', field = ''MEGRU'', span = (0, 23),
     suggested_statement = todo_comment ''MARC'' ''MEGRU''\<rparr>
     \<in> set (scan_sql ''SELECT MEGRU FROM MARC.'') \<union> set (scan_declarations ''SELECT MEGRU FROM MARC.'') \<and>
   ''MEGRU'' \<in> OBSOLETE_FIELDNAMES \<and>
   (\<exists>flds. OBSOLETE_FIELDS ''MARC'' = Some flds \<and> ''MEGRU'' \<in> set flds) \<and>
   todo_comment ''MARC'' ''MEGRU'' =
     ''* TODO: MARC-MEGRU is obsolete in S/4HANA (SAP Note 2267246). The related functionality is no longer available; remove or replace usage.''"
proof -
  have e: "scan_sql ''SELECT MEGRU FROM MARC.'' =
      [\<lparr>table = Some ''MARC'', field = ''MEGRU'', span = (0, 23),
         suggested_statement = todo_comment ''MARC'' ''MEGRU''\<rparr>]"
    by code_simp
  then have h: "\<lparr>table = Some ''MARC'', field = ''MEGRU'', span = (0, 23),
     suggested_statement = todo_comment ''MARC'' ''MEGRU''\<rparr>
     \<in> set (scan_sql ''SELECT MEGRU FROM MARC.'') \<union> set (scan_declarations ''SELECT MEGRU FROM MARC.'')"
    by simp
  from findings_in_registry [OF h] h show ?thesis by simp
qed

end
